theory Spec2Isabelle
  imports Complex_Main
begin

section \<open>The photobooth component: data model\<close>

text \<open>
  The development embeds \<^verbatim>\<open>src/components/CosmicPhotobooth.tsx\<close> and the catalog of
  \<^verbatim>\<open>src/components/stickers.ts\<close>.

  JavaScript numbers are modelled by \<^typ>\<open>real\<close> where they are coordinates and by
  \<^typ>\<open>int\<close> or \<^typ>\<open>nat\<close> where the source only ever holds an integer (loop
  counters, array indices). The layout numbers are integers far below \<open>2^53\<close>, where
  double arithmetic is exact; the random positions of stickers are reals, and the rounding
  of doubles is not modelled. Strings are strings of code units below \<open>U+0100\<close>.
\<close>

record Filter =
  name :: string
  cssFilter :: string

definition filters :: "Filter list" where
  "filters =
    [ \<lparr>name = ''No Filter'', cssFilter = ''none''\<rparr>,
      \<lparr>name = ''B&W'', cssFilter = ''var(--filter-bw)''\<rparr>,
      \<lparr>name = ''Sepia'', cssFilter = ''var(--filter-sepia)''\<rparr>,
      \<lparr>name = ''Vintage'', cssFilter = ''var(--filter-vintage)''\<rparr>,
      \<lparr>name = ''Soft'', cssFilter = ''var(--filter-soft)''\<rparr>,
      \<lparr>name = ''Noir'', cssFilter = ''var(--filter-noir)''\<rparr>,
      \<lparr>name = ''Vivid'', cssFilter = ''var(--filter-vivid)''\<rparr> ]"

record StripStyle =
  styleName :: string
  className :: string

definition stripStyles :: "StripStyle list" where
  "stripStyles = [ \<lparr>styleName = ''Custom Color'', className = ''strip-custom''\<rparr> ]"

record StickerTheme =
  themeName :: string
  themeValue :: string
  images :: "string list"

definition STICKER_THEMES :: "StickerTheme list" where
  "STICKER_THEMES =
    [ \<lparr>themeName = ''None'', themeValue = ''none'', images = []\<rparr>,
      \<lparr>themeName = ''Heart'', themeValue = ''heart'', images = [''/stickers/heart.png'']\<rparr>,
      \<lparr>themeName = ''Star'', themeValue = ''star'', images = [''/stickers/star.png'']\<rparr>,
      \<lparr>themeName = ''Cute Cat'', themeValue = ''cat'', images = [''/stickers/cat.png'']\<rparr>,
      \<lparr>themeName = ''Cartoon'', themeValue = ''cartoon'', images = [''/stickers/cartoon.png'']\<rparr> ]"

text \<open>
  A snapshot is the string \<^verbatim>\<open>canvas.toDataURL('image/jpeg', 0.8)\<close> returns after
  \<^verbatim>\<open>ctx.filter = f; ctx.drawImage(video, 0, 0)\<close>. The encoded bytes are the browser's;
  the model keeps what determines them: the value \<open>f\<close> assigned to the context's filter
  and the identity of the video frame that was on screen. A data URL is never the empty
  string, so the test \<^verbatim>\<open>if (photo)\<close> of the source succeeds exactly when
  \<^verbatim>\<open>capturePhoto\<close> did not return \<^verbatim>\<open>null\<close>.
\<close>

datatype snapshot = JpegDataURL (burned: string) (frame: nat)

datatype MediaStream = MediaStream nat

text \<open>The \<^verbatim>\<open>useState\<close> cells of the component, with their initial values.\<close>

record component =
  captureTime :: string
  customColor :: string
  selectedStripStyle :: string
  stream :: "MediaStream option"
  activeFilter :: Filter
  countdownTime :: int
  isCountingDown :: bool
  countdownValue :: int
  capturedPhotos :: "snapshot list"
  isCapturing :: bool
  selectedStickerTheme :: string

definition initial :: component where
  "initial =
    \<lparr> captureTime = '''',
      customColor = ''#e0f7fa'',
      selectedStripStyle = className (hd stripStyles),
      stream = None,
      activeFilter = hd filters,
      countdownTime = 3,
      isCountingDown = False,
      countdownValue = 0,
      capturedPhotos = [],
      isCapturing = False,
      selectedStickerTheme = ''none'' \<rparr>"

section \<open>The capture sequencer\<close>

text \<open>
  What \<^verbatim>\<open>capturePhoto\<close> finds at the instant of a shot: the video element behind
  \<^verbatim>\<open>videoRef.current\<close> (\<open>None\<close> for \<^verbatim>\<open>null\<close>, otherwise the frame it shows), whether
  \<^verbatim>\<open>canvasRef.current\<close> is there, and whether \<^verbatim>\<open>getContext('2d')\<close> yields a context.
  The hidden canvas takes the pixel dimensions of the video before the frame is drawn;
  the model does not keep them.
\<close>

record surface =
  videoEl :: "nat option"
  canvasEl :: bool
  context2d :: bool

definition capturePhoto :: "Filter \<Rightarrow> surface \<Rightarrow> snapshot option" where
  "capturePhoto af s =
    (case videoEl s of
       None \<Rightarrow> None
     | Some fr \<Rightarrow>
         if \<not> canvasEl s then None
         else if \<not> context2d s then None
         else Some (JpegDataURL (cssFilter af) fr))"

text \<open>
  The state setters the component calls. \<open>AppendPhoto p\<close> is the functional update
  \<^verbatim>\<open>setCapturedPhotos(prev => [...prev, photo])\<close>.
\<close>

datatype action =
    SetIsCapturing bool
  | SetCapturedPhotos "snapshot list"
  | AppendPhoto snapshot
  | SetCaptureTime string
  | SetIsCountingDown bool
  | SetCountdownValue int
  | SetActiveFilter Filter
  | SetCountdownTime int
  | SetSelectedStripStyle string
  | SetCustomColor string
  | SetStream "MediaStream option"

fun apply_action :: "action \<Rightarrow> component \<Rightarrow> component" where
  "apply_action (SetIsCapturing b) c = c\<lparr>isCapturing := b\<rparr>"
| "apply_action (SetCapturedPhotos ps) c = c\<lparr>capturedPhotos := ps\<rparr>"
| "apply_action (AppendPhoto p) c = c\<lparr>capturedPhotos := capturedPhotos c @ [p]\<rparr>"
| "apply_action (SetCaptureTime t) c = c\<lparr>captureTime := t\<rparr>"
| "apply_action (SetIsCountingDown b) c = c\<lparr>isCountingDown := b\<rparr>"
| "apply_action (SetCountdownValue n) c = c\<lparr>countdownValue := n\<rparr>"
| "apply_action (SetActiveFilter f) c = c\<lparr>activeFilter := f\<rparr>"
| "apply_action (SetCountdownTime n) c = c\<lparr>countdownTime := n\<rparr>"
| "apply_action (SetSelectedStripStyle s) c = c\<lparr>selectedStripStyle := s\<rparr>"
| "apply_action (SetCustomColor s) c = c\<lparr>customColor := s\<rparr>"
| "apply_action (SetStream m) c = c\<lparr>stream := m\<rparr>"

definition apply_all :: "action list \<Rightarrow> component \<Rightarrow> component" where
  "apply_all as c = foldl (\<lambda>c a. apply_action a c) c as"

text \<open>
  A run of the asynchronous function \<^verbatim>\<open>startPhotoSequence\<close> is the sequence of its
  effects: a setter call, or a suspension \<^verbatim>\<open>await new Promise(r => setTimeout(r, ms))\<close>.
\<close>

datatype step = Call action | Await nat

text \<open>\<^verbatim>\<open>for (let count = countdownTime; count > 0; count--)\<close>\<close>

function countdown :: "int \<Rightarrow> step list" where
  "countdown count =
    (if count > 0
     then [Call (SetCountdownValue count), Await 1000] @ countdown (count - 1)
     else [])"
  by pat_completeness auto
termination
  by (relation "measure nat") auto

declare countdown.simps [simp del]

text \<open>
  \<^verbatim>\<open>for (let i = 0; i < 3; i++)\<close>. The callback closes over \<^verbatim>\<open>countdownTime\<close> and
  \<^verbatim>\<open>capturePhoto\<close> (hence \<^verbatim>\<open>activeFilter\<close>) of the render in which it was created, so
  both are fixed for the whole run; \<open>env i\<close> is the surface at the instant of shot \<open>i\<close>.
\<close>

function photoLoop :: "int \<Rightarrow> Filter \<Rightarrow> (nat \<Rightarrow> surface) \<Rightarrow> nat \<Rightarrow> step list" where
  "photoLoop cd af env i =
    (if i < 3
     then [Call (SetIsCountingDown True)] @ countdown cd @ [Call (SetIsCountingDown False)]
        @ (case capturePhoto af (env i) of
             Some photo \<Rightarrow> [Call (AppendPhoto photo)]
           | None \<Rightarrow> [])
        @ (if i < 2 then [Await 1000] else [])
        @ photoLoop cd af env (i + 1)
     else [])"
  by pat_completeness auto
termination
  by (relation "measure (\<lambda>(cd, af, env, i). 3 - i)") auto

declare photoLoop.simps [simp del]

text \<open>
  \<open>c\<close> is the render state the callback closes over, \<open>now\<close> the value of
  \<^verbatim>\<open>new Date().toLocaleString()\<close> when the function is entered.
\<close>

definition startPhotoSequence :: "component \<Rightarrow> string \<Rightarrow> (nat \<Rightarrow> surface) \<Rightarrow> step list" where
  "startPhotoSequence c now env =
    (if isCapturing c then []
     else [Call (SetIsCapturing True), Call (SetCapturedPhotos []), Call (SetCaptureTime now)]
        @ photoLoop (countdownTime c) (activeFilter c) env 0
        @ [Call (SetIsCapturing False)])"

subsection \<open>Rendering and the memoized download callback\<close>

text \<open>
  \<^verbatim>\<open>downloadPhotoStrip\<close> is \<^verbatim>\<open>useCallback(..., [capturedPhotos, selectedStripStyle])\<close>:
  React keeps the function of an earlier render, with that render's values of every
  variable it reads, until one of the two dependencies changes. A page is the current
  state together with the render state the memoized callback closes over.
  \<^verbatim>\<open>startPhotoSequence\<close> lists everything it reads among its dependencies
  (\<^verbatim>\<open>[countdownTime, capturePhoto, isCapturing]\<close>, and \<^verbatim>\<open>capturePhoto\<close> depends on
  \<^verbatim>\<open>[activeFilter]\<close>), so the callback a click invokes closes over the current state.
\<close>

record page =
  cur :: component
  dlClosure :: component

text \<open>
  Every call of \<^verbatim>\<open>setCapturedPhotos\<close> in the source stores a fresh array, so the
  dependency \<^verbatim>\<open>capturedPhotos\<close> has changed whenever a batch contains one.
\<close>

fun setsPhotos :: "action \<Rightarrow> bool" where
  "setsPhotos (SetCapturedPhotos ps) = True"
| "setsPhotos (AppendPhoto p) = True"
| "setsPhotos a = False"

text \<open>One render: the batched setter calls are applied, then the hooks run.\<close>

definition commit :: "action list \<Rightarrow> page \<Rightarrow> page" where
  "commit as pg =
    (let new = apply_all as (cur pg) in
     \<lparr> cur = new,
       dlClosure =
         (if list_ex setsPhotos as \<or> selectedStripStyle new \<noteq> selectedStripStyle (cur pg)
          then new else dlClosure pg) \<rparr>)"

text \<open>
  While \<^verbatim>\<open>startPhotoSequence\<close> is suspended the page handles other input: the filter
  buttons, the countdown selector and, once a snapshot exists, the strip style selector
  and the color picker. Each input calls one setter and is rendered on its own.
\<close>

fun userAction :: "action \<Rightarrow> bool" where
  "userAction (SetActiveFilter f) = True"
| "userAction (SetCountdownTime n) = True"
| "userAction (SetSelectedStripStyle s) = True"
| "userAction (SetCustomColor s) = True"
| "userAction a = False"

definition inputs :: "action list \<Rightarrow> page \<Rightarrow> page" where
  "inputs as pg = foldl (\<lambda>p a. commit [a] p) pg as"

text \<open>
  A run on a page. Setter calls made without an intervening suspension are batched into
  one render; the component re-renders when the function suspends and after it returns.
  \<open>user k\<close> lists the setter calls of the inputs made during the \<open>k\<close>-th suspension.
\<close>

fun exec :: "(nat \<Rightarrow> action list) \<Rightarrow> nat \<Rightarrow> step list \<Rightarrow> action list \<Rightarrow> page \<Rightarrow> page" where
  "exec user k [] pend pg = commit pend pg"
| "exec user k (Call a # r) pend pg = exec user k r (pend @ [a]) pg"
| "exec user k (Await ms # r) pend pg = exec user (Suc k) r [] (inputs (user k) (commit pend pg))"

text \<open>
  The capture button: \<^verbatim>\<open><Button onClick={startPhotoSequence} disabled={isCapturing || !stream}>\<close>.
  A disabled button delivers no click.
\<close>

definition clickStartCapture ::
    "(nat \<Rightarrow> action list) \<Rightarrow> page \<Rightarrow> string \<Rightarrow> (nat \<Rightarrow> surface) \<Rightarrow> page" where
  "clickStartCapture user pg now env =
    (if isCapturing (cur pg) \<or> stream (cur pg) = None then pg
     else exec user 0 (startPhotoSequence (cur pg) now env) [] pg)"

text \<open>The filter buttons: \<^verbatim>\<open>onClick={() => setActiveFilter(filter)}\<close>.\<close>

definition clickFilter :: "Filter \<Rightarrow> page \<Rightarrow> page" where
  "clickFilter f pg = commit [SetActiveFilter f] pg"




text \<open>
  The first render, and \<^verbatim>\<open>initializeCamera\<close>: \<^verbatim>\<open>getUserMedia\<close> resolves to a stream,
  which is stored, or rejects, which is logged and changes nothing.
\<close>

definition mounted :: page where
  "mounted = \<lparr>cur = initial, dlClosure = initial\<rparr>"

definition initializeCamera :: "MediaStream option \<Rightarrow> page \<Rightarrow> page" where
  "initializeCamera granted pg =
    (case granted of
       Some mediaStream \<Rightarrow> commit [SetStream (Some mediaStream)] pg
     | None \<Rightarrow> pg)"

section \<open>The strip compositor\<close>

subsection \<open>Resolving the filter\<close>

text \<open>\<^verbatim>\<open>s.startsWith(p)\<close>\<close>

definition startsWith :: "string \<Rightarrow> string \<Rightarrow> bool" where
  "startsWith s p = (take (length p) s = p)"

text \<open>
  \<^verbatim>\<open>s.trim()\<close> removes white space and line terminators at both ends. A character of
  the model is a code unit below \<open>U+0100\<close>; among these, the ones \<^verbatim>\<open>trim\<close> removes are
  the space, tab, line feed, vertical tab, form feed, carriage return and the no-break
  space \<open>U+00A0\<close>.
\<close>

definition isSpace :: "char \<Rightarrow> bool" where
  "isSpace ch =
    (ch \<in> set [CHR '' '', CHR 0x09, CHR 0x0A, CHR 0x0B, CHR 0x0C, CHR 0x0D, CHR 0xA0])"

definition trim :: "string \<Rightarrow> string" where
  "trim s = rev (dropWhile isSpace (rev (dropWhile isSpace s)))"

text \<open>\<^verbatim>\<open>a || b\<close> on strings: the empty string is the only falsy one.\<close>

definition orElse :: "string \<Rightarrow> string \<Rightarrow> string" where
  "orElse a b = (if a = [] then b else a)"

text \<open>
  \<^verbatim>\<open>s.match(/var\(([^)]+)\)/)\<close>: the first group of the leftmost match, \<open>None\<close> for
  \<^verbatim>\<open>null\<close>. At a position where \<^verbatim>\<open>var(\<close> stands, the greedy class takes every
  character up to the next \<^verbatim>\<open>)\<close>; there is a match there exactly when it took at least
  one and a \<^verbatim>\<open>)\<close> follows.
\<close>

fun matchVar :: "string \<Rightarrow> string option" where
  "matchVar [] = None"
| "matchVar (ch # cs) =
    (if startsWith (ch # cs) ''var(''
     then (let rest = drop 4 (ch # cs);
               body = takeWhile (\<lambda>x. x \<noteq> CHR '')'') rest;
               after = dropWhile (\<lambda>x. x \<noteq> CHR '')'') rest
           in if body \<noteq> [] \<and> after \<noteq> [] then Some body else matchVar cs)
     else matchVar cs)"

text \<open>
  What the compositor reads from the browser: whether a canvas yields a 2D context, and
  \<^verbatim>\<open>getComputedStyle(e).getPropertyValue(p)\<close> for the document element and for the body
  (the empty string when the property is not set).
\<close>

record dom_env =
  context2dAvailable :: bool
  documentElementStyle :: "string \<Rightarrow> string"
  bodyStyle :: "string \<Rightarrow> string"

text \<open>The value assigned to \<^verbatim>\<open>ctx.filter\<close> before a snapshot is drawn.\<close>

definition resolveFilter :: "dom_env \<Rightarrow> string \<Rightarrow> string" where
  "resolveFilter env cssf =
    (let filterValue =
       (if startsWith cssf ''var(''
        then (case matchVar cssf of
                Some cssVar1 \<Rightarrow>
                  if cssVar1 \<noteq> []
                  then orElse (documentElementStyle env (trim cssVar1))
                         (orElse (bodyStyle env (trim cssVar1)) ''none'')
                  else cssf
              | None \<Rightarrow> cssf)
        else cssf)
     in orElse (trim filterValue) ''none'')"

subsection \<open>The drawing context\<close>

text \<open>
  The canvas is modelled by the calls made on its 2D context, in the order they are made.
\<close>

datatype img_source = Photo snapshot | StickerImg string

datatype ctx_call =
    SetFillStyle string
  | FillRect real real real real
  | SetStrokeStyle string
  | SetLineWidth real
  | StrokeRect real real real real
  | Save
  | Restore
  | Translate real real
  | Rotate real
  | BeginPath
  | Ellipse real real real real real real real
  | MoveTo real real
  | BezierCurveTo real real real real real real
  | Fill
  | SetFont string
  | SetTextAlign string
  | FillText string real real
  | SetFilter string
  | DrawImage img_source real real real real

subsection \<open>Layout\<close>

definition photoWidth :: real where "photoWidth = 400"
definition photoHeight :: real where "photoHeight = 300"
definition stripWidth :: real where "stripWidth = photoWidth + 40"
definition previewPaddingTop :: real where "previewPaddingTop = 60"
definition previewPhotoGap :: real where "previewPhotoGap = 10"
definition previewDatePadding :: real where "previewDatePadding = 16"

definition stripHeight :: "real \<Rightarrow> real" where
  "stripHeight numPhotos =
    previewPaddingTop + (photoHeight * numPhotos) + (previewPhotoGap * (numPhotos - 1))
      + previewDatePadding + 24"

definition dateY :: "real \<Rightarrow> real" where
  "dateY numPhotos =
    previewPaddingTop + (photoHeight * numPhotos) + (previewPhotoGap * (numPhotos - 1))
      + previewDatePadding"

subsection \<open>Background and header\<close>

definition drawButterfly :: "real \<Rightarrow> real \<Rightarrow> ctx_call list" where
  "drawButterfly x y =
    [ Save, Translate x y,
      BeginPath, Ellipse 0 (-10) 8 12 0 0 (2 * pi), SetFillStyle ''#ffb6b9'', Fill,
      BeginPath, Ellipse 0 10 8 12 0 0 (2 * pi), SetFillStyle ''#b6e2ff'', Fill,
      BeginPath, Ellipse (-10) 0 12 8 0 0 (2 * pi), SetFillStyle ''#c3f584'', Fill,
      BeginPath, Ellipse 10 0 12 8 0 0 (2 * pi), SetFillStyle ''#f7e1ff'', Fill,
      Restore ]"

definition drawHeart :: "nat \<Rightarrow> ctx_call list" where
  "drawHeart i =
    [ Save, Translate (80 + real i * 60) 40, Rotate (- 0.2),
      BeginPath, MoveTo 0 0,
      BezierCurveTo 0 (-10) 20 (-10) 20 0,
      BezierCurveTo 20 15 0 20 0 30,
      BezierCurveTo 0 20 (-20) 15 (-20) 0,
      BezierCurveTo (-20) (-10) 0 (-10) 0 0,
      SetFillStyle ''#ff69b4'', Fill,
      Restore ]"

text \<open>\<^verbatim>\<open>switch (stripStyleClass)\<close>\<close>

definition background :: "string \<Rightarrow> string \<Rightarrow> real \<Rightarrow> real \<Rightarrow> ctx_call list" where
  "background stripStyleClass customColorParam w h =
    (if stripStyleClass = ''strip-cartoon'' then
       [ SetFillStyle ''#ffe066'', FillRect 0 0 w h,
         SetStrokeStyle ''#222'', SetLineWidth 8, StrokeRect 0 0 w h ]
     else if stripStyleClass = ''strip-flower'' then
       [ SetFillStyle ''#f7e1ff'', FillRect 0 0 w h ]
         @ drawButterfly 20 20 @ drawButterfly (w - 20) (h - 20)
     else if stripStyleClass = ''strip-heart'' then
       [ SetFillStyle ''#fff0f6'', FillRect 0 0 w h ] @ concat (map drawHeart [0..<5])
     else if stripStyleClass = ''strip-custom'' then
       [ SetFillStyle customColorParam, FillRect 0 0 w h ]
     else
       [ SetFillStyle ''#ffffff'', FillRect 0 0 w h ])"

definition topMessage :: "ctx_call list" where
  \<open>topMessage =
    [ SetFont ''bold 32px "Times New Roman", Times, serif'',
      SetFillStyle ''#222'',
      SetTextAlign ''center'',
      FillText ''Captured by FotoJB'' (stripWidth / 2) 40 ]\<close>

subsection \<open>A composite in flight\<close>

text \<open>
  \<^verbatim>\<open>link.click()\<close>: the file name, and the canvas as \<^verbatim>\<open>canvas.toDataURL('image/jpeg', 0.9)\<close>
  saw it, that is, every call made so far.
\<close>

record download =
  filename :: string
  href :: "ctx_call list"

text \<open>
  The state of one call of \<^verbatim>\<open>downloadPhotoStrip\<close>: the canvas, the counter
  \<^verbatim>\<open>loadedCount\<close>, the images whose \<^verbatim>\<open>onload\<close> is registered and has not run yet (by
  slot index; an image fires \<^verbatim>\<open>load\<close> at most once), and the downloads triggered.
\<close>

record strip =
  canvasWidth :: real
  canvasHeight :: real
  calls :: "ctx_call list"
  loadedCount :: nat
  photoPending :: "nat \<rightharpoonup> snapshot"
  stickerPending :: "nat \<rightharpoonup> string"
  downloads :: "download list"

text \<open>
  The synchronous part. \<open>c\<close> is the render state the memoized callback closes over; the
  two arguments are optional in the source and default to that state's
  \<^verbatim>\<open>selectedStripStyle\<close> and \<^verbatim>\<open>customColor\<close>. The result is \<open>None\<close> when the function
  returns at one of its two guards.
\<close>

definition downloadPhotoStrip ::
    "component \<Rightarrow> dom_env \<Rightarrow> string option \<Rightarrow> string option \<Rightarrow> strip option" where
  "downloadPhotoStrip c env styleArg colorArg =
    (let stripStyleClass = (case styleArg of None \<Rightarrow> selectedStripStyle c | Some s \<Rightarrow> s);
         customColorParam = (case colorArg of None \<Rightarrow> customColor c | Some s \<Rightarrow> s)
     in if length (capturedPhotos c) = 0 then None
        else if \<not> context2dAvailable env then None
        else
          (let numPhotos = real (length (capturedPhotos c)) in
           Some \<lparr> canvasWidth = stripWidth,
                  canvasHeight = stripHeight numPhotos,
                  calls = background stripStyleClass customColorParam stripWidth
                            (stripHeight numPhotos) @ topMessage,
                  loadedCount = 0,
                  photoPending = map_of (List.enumerate 0 (capturedPhotos c)),
                  stickerPending = Map.empty,
                  downloads = [] \<rparr>))"

text \<open>\<^verbatim>\<open>`${Date.now()}`\<close>: a non-negative integer in decimal.\<close>

function decimal :: "nat \<Rightarrow> string" where
  "decimal n =
    (if n < 10 then [char_of (48 + n)] else decimal (n div 10) @ [char_of (48 + n mod 10)])"
  by pat_completeness auto
termination
  by (relation "measure id") auto

declare decimal.simps [simp del]

definition slotY :: "nat \<Rightarrow> real" where
  "slotY index = previewPaddingTop + (real index * (photoHeight + previewPhotoGap))"

definition stickerSize :: real where
  "stickerSize = of_int \<lfloor>photoWidth * 0.12\<rfloor>"

text \<open>
  \<^verbatim>\<open>img.onload\<close> of the snapshot in slot \<open>index\<close>; \<open>now\<close> is \<^verbatim>\<open>Date.now()\<close>.
  The sticker image is created here and its \<^verbatim>\<open>onload\<close> registered; nothing waits for it.
\<close>

definition photoOnload ::
    "component \<Rightarrow> dom_env \<Rightarrow> nat \<Rightarrow> snapshot \<Rightarrow> nat \<Rightarrow> strip \<Rightarrow> strip" where
  "photoOnload c env index img now st =
    (let numPhotos = real (length (capturedPhotos c));
         y = slotY index;
         st1 = st\<lparr>calls := calls st @
                 [ Save,
                   SetFilter (resolveFilter env (cssFilter (activeFilter c))),
                   DrawImage (Photo img) 20 y photoWidth photoHeight,
                   Restore ]\<rparr>;
         st2 =
           (if selectedStickerTheme c \<noteq> ''none'' then
              (case find (\<lambda>t. themeValue t = selectedStickerTheme c) STICKER_THEMES of
                 Some theme \<Rightarrow>
                   if length (images theme) \<noteq> 0
                   then st1\<lparr>stickerPending := (stickerPending st1)(index \<mapsto> hd (images theme))\<rparr>
                   else st1
               | None \<Rightarrow> st1)
            else st1);
         st3 = st2\<lparr>loadedCount := loadedCount st2 + 1\<rparr>
     in if loadedCount st3 = length (capturedPhotos c) then
          (let drawn = calls st3 @
                 [ SetFont ''16px Arial'',
                   SetFillStyle ''#555'',
                   SetTextAlign ''center'',
                   FillText (captureTime c) (stripWidth / 2) (dateY numPhotos) ]
           in st3\<lparr>calls := drawn,
                   downloads := downloads st3 @
                     [\<lparr>filename = ''cosmic-photobooth-'' @ decimal now @ ''.jpg'',
                       href = drawn\<rparr>]\<rparr>)
        else st3)"

text \<open>
  \<^verbatim>\<open>stickerImg.onload\<close> of slot \<open>index\<close>. \<open>rnd k\<close> is the result of the \<open>k\<close>-th call of
  \<^verbatim>\<open>Math.random()\<close> the handler makes: one for the count, then three per sticker.
\<close>

definition drawSticker :: "string \<Rightarrow> real \<Rightarrow> (nat \<Rightarrow> real) \<Rightarrow> nat \<Rightarrow> ctx_call list" where
  "drawSticker src y rnd s =
    (let margin = 8;
         randX = 20 + margin + rnd (3 * s + 1) * (photoWidth - stickerSize - 2 * margin);
         randY = y + margin + rnd (3 * s + 2) * (photoHeight - stickerSize - 2 * margin);
         angle = rnd (3 * s + 3) * 2 * pi
     in [ Save,
          Translate (randX + stickerSize / 2) (randY + stickerSize / 2),
          Rotate angle,
          DrawImage (StickerImg src) (- stickerSize / 2) (- stickerSize / 2) stickerSize stickerSize,
          Restore ])"

definition stickerCount :: "(nat \<Rightarrow> real) \<Rightarrow> int" where
  "stickerCount rnd = \<lfloor>rnd 0 * 2\<rfloor> + 7"

definition stickerOnload :: "string \<Rightarrow> nat \<Rightarrow> (nat \<Rightarrow> real) \<Rightarrow> strip \<Rightarrow> strip" where
  "stickerOnload src index rnd st =
    st\<lparr>calls := calls st
          @ concat (map (drawSticker src (slotY index) rnd) [0..<nat (stickerCount rnd)])\<rparr>"

text \<open>
  The events of a composite are the \<^verbatim>\<open>load\<close> events of its images, in whatever order the
  browser delivers them. An image that fails to decode fires no \<^verbatim>\<open>load\<close>, and the source
  registers no \<^verbatim>\<open>onerror\<close>: a failure runs no code and is the absence of the event.
  An event for an image that is not pending does not occur; the model ignores it.
\<close>

datatype event = PhotoLoad nat nat | StickerLoad nat "nat \<Rightarrow> real"

fun fire :: "component \<Rightarrow> dom_env \<Rightarrow> event \<Rightarrow> strip \<Rightarrow> strip" where
  "fire c env (PhotoLoad index now) st =
    (case photoPending st index of
       None \<Rightarrow> st
     | Some img \<Rightarrow>
         photoOnload c env index img now (st\<lparr>photoPending := (photoPending st)(index := None)\<rparr>))"
| "fire c env (StickerLoad index rnd) st =
    (case stickerPending st index of
       None \<Rightarrow> st
     | Some src \<Rightarrow>
         stickerOnload src index rnd (st\<lparr>stickerPending := (stickerPending st)(index := None)\<rparr>))"

definition run :: "component \<Rightarrow> dom_env \<Rightarrow> event list \<Rightarrow> strip \<Rightarrow> strip" where
  "run c env evs st = foldl (\<lambda>s e. fire c env e s) st evs"

text \<open>
  The download button:
  \<^verbatim>\<open>onClick={() => downloadPhotoStrip(selectedStripStyle, customColor)}\<close>. The arrow function
  is created by every render and reads the current state; the function it calls is the
  memoized one.
\<close>

definition clickDownload :: "page \<Rightarrow> dom_env \<Rightarrow> strip option" where
  "clickDownload pg env =
    downloadPhotoStrip (dlClosure pg) env
      (Some (selectedStripStyle (cur pg))) (Some (customColor (cur pg)))"

section \<open>Auxiliary notions for the capture sequencer\<close>

text \<open>A surface on which \<^verbatim>\<open>capturePhoto\<close> succeeds.\<close>

definition available :: "surface \<Rightarrow> bool" where
  "available s = (videoEl s \<noteq> None \<and> canvasEl s \<and> context2d s)"

text \<open>A schedule of inputs that only holds what the page lets the user do during a run.\<close>

definition userOnly :: "(nat \<Rightarrow> action list) \<Rightarrow> bool" where
  "userOnly user = (\<forall>k. \<forall>a \<in> set (user k). userAction a)"

definition noInput :: "nat \<Rightarrow> action list" where
  "noInput k = []"

text \<open>The setter calls of a run, in order, and the number of its suspensions.\<close>

fun setters :: "step list \<Rightarrow> action list" where
  "setters [] = []"
| "setters (Call a # r) = a # setters r"
| "setters (Await ms # r) = setters r"

fun awaits :: "step list \<Rightarrow> nat" where
  "awaits [] = 0"
| "awaits (Call a # r) = awaits r"
| "awaits (Await ms # r) = Suc (awaits r)"

text \<open>The setter calls of a run and of the inputs made during it, in the order they happen.\<close>

fun timeline :: "(nat \<Rightarrow> action list) \<Rightarrow> nat \<Rightarrow> step list \<Rightarrow> action list" where
  "timeline user k [] = []"
| "timeline user k (Call a # r) = a # timeline user k r"
| "timeline user k (Await ms # r) = user k @ timeline user (Suc k) r"

text \<open>
  The part of the state a capture session owns (snapshots, the running flag, the time
  stamp), and what a setter call does to it.
\<close>

definition session :: "component \<Rightarrow> snapshot list \<times> bool \<times> string" where
  "session c = (capturedPhotos c, isCapturing c, captureTime c)"

fun sessionEffect :: "action \<Rightarrow> snapshot list \<times> bool \<times> string \<Rightarrow> snapshot list \<times> bool \<times> string" where
  "sessionEffect (SetCapturedPhotos ps) (xs, b, t) = (ps, b, t)"
| "sessionEffect (AppendPhoto p) (xs, b, t) = (xs @ [p], b, t)"
| "sessionEffect (SetIsCapturing b') (xs, b, t) = (xs, b', t)"
| "sessionEffect (SetCaptureTime t') (xs, b, t) = (xs, b, t')"
| "sessionEffect a s = s"

text \<open>What a setter call does to the snapshot sequence.\<close>

fun photoEffect :: "action \<Rightarrow> snapshot list \<Rightarrow> snapshot list" where
  "photoEffect (SetCapturedPhotos ps) xs = ps"
| "photoEffect (AppendPhoto p) xs = xs @ [p]"
| "photoEffect a xs = xs"

text \<open>The snapshots shot \<open>i\<close> contributes: one, or none when it is skipped.\<close>

definition shot :: "Filter \<Rightarrow> (nat \<Rightarrow> surface) \<Rightarrow> nat \<Rightarrow> snapshot list" where
  "shot af env i = (case capturePhoto af (env i) of Some p \<Rightarrow> [p] | None \<Rightarrow> [])"

text \<open>The values a run passes to \<^verbatim>\<open>setCaptureTime\<close>, in order.\<close>

fun timeStamps :: "step list \<Rightarrow> string list" where
  "timeStamps [] = []"
| "timeStamps (Call (SetCaptureTime t) # r) = t # timeStamps r"
| "timeStamps (s # r) = timeStamps r"

text \<open>The setters called inside the loop over the three shots.\<close>

fun loopAction :: "action \<Rightarrow> bool" where
  "loopAction (SetIsCountingDown b) = True"
| "loopAction (SetCountdownValue n) = True"
| "loopAction (AppendPhoto p) = True"
| "loopAction a = False"

section \<open>Auxiliary notions for the compositor\<close>

text \<open>The slots whose snapshot image, respectively sticker image, an event list loads.\<close>

fun photoLoads :: "event list \<Rightarrow> nat list" where
  "photoLoads [] = []"
| "photoLoads (PhotoLoad i now # r) = i # photoLoads r"
| "photoLoads (StickerLoad i rnd # r) = photoLoads r"

fun stickerLoads :: "event list \<Rightarrow> nat list" where
  "stickerLoads [] = []"
| "stickerLoads (PhotoLoad i now # r) = stickerLoads r"
| "stickerLoads (StickerLoad i rnd # r) = i # stickerLoads r"

text \<open>Observations of the call log: sticker draws, text draws, filter assignments.\<close>

fun isStickerDraw :: "ctx_call \<Rightarrow> bool" where
  "isStickerDraw (DrawImage (StickerImg src) x y w h) = True"
| "isStickerDraw call = False"

fun isFillText :: "ctx_call \<Rightarrow> bool" where
  "isFillText (FillText txt x y) = True"
| "isFillText call = False"

fun setFilters :: "ctx_call list \<Rightarrow> string list" where
  "setFilters [] = []"
| "setFilters (SetFilter f # r) = f # setFilters r"
| "setFilters (call # r) = setFilters r"

text \<open>
  The pieces of \<^const>\<open>photoOnload\<close>, named: the image the sticker branch loads (if any),
  the calls that draw the snapshot, and the calls that draw the time stamp.
\<close>

definition stickerSrc :: "component \<Rightarrow> string option" where
  "stickerSrc c =
    (if selectedStickerTheme c \<noteq> ''none'' then
       (case find (\<lambda>t. themeValue t = selectedStickerTheme c) STICKER_THEMES of
          Some theme \<Rightarrow> if length (images theme) \<noteq> 0 then Some (hd (images theme)) else None
        | None \<Rightarrow> None)
     else None)"

definition photoCalls :: "component \<Rightarrow> dom_env \<Rightarrow> nat \<Rightarrow> snapshot \<Rightarrow> ctx_call list" where
  "photoCalls c env index img =
    [ Save,
      SetFilter (resolveFilter env (cssFilter (activeFilter c))),
      DrawImage (Photo img) 20 (slotY index) photoWidth photoHeight,
      Restore ]"

definition labelCalls :: "component \<Rightarrow> ctx_call list" where
  "labelCalls c =
    [ SetFont ''16px Arial'',
      SetFillStyle ''#555'',
      SetTextAlign ''center'',
      FillText (captureTime c) (stripWidth / 2) (dateY (real (length (capturedPhotos c)))) ]"

subsection \<open>Where a sticker lands\<close>















subsection \<open>Sample inputs\<close>

text \<open>
  A browser with a 2D context whose stylesheet defines \<^verbatim>\<open>--filter-bw\<close> on the document
  element; a render state with two snapshots and the sticker theme \<^verbatim>\<open>heart\<close>; three
  shots with the surface available; the page once the camera stream is attached; that page
  after three shots taken with \<^verbatim>\<open>No Filter\<close> and a click on \<^verbatim>\<open>B&W\<close>; and that page after
  a click on \<^verbatim>\<open>B&W\<close>, three shots, and a click on \<^verbatim>\<open>No Filter\<close>.
\<close>

definition sampleEnv :: dom_env where
  "sampleEnv =
    \<lparr> context2dAvailable = True,
      documentElementStyle = (\<lambda>p. if p = ''--filter-bw'' then ''grayscale(100%)'' else ''''),
      bodyStyle = (\<lambda>p. '''') \<rparr>"

definition heartStrip :: component where
  "heartStrip =
    initial\<lparr> capturedPhotos := [JpegDataURL ''none'' 10, JpegDataURL ''none'' 11],
             captureTime := ''10:00'',
             selectedStickerTheme := ''heart'' \<rparr>"

definition threeShots :: "nat \<Rightarrow> surface" where
  "threeShots i = \<lparr>videoEl = Some (10 + i), canvasEl = True, context2d = True\<rparr>"

definition cameraReady :: page where
  "cameraReady = initializeCamera (Some (MediaStream 0)) mounted"

definition filterChangedAfterCapture :: page where
  "filterChangedAfterCapture =
    clickFilter (filters ! 1) (clickStartCapture noInput cameraReady ''10:00'' threeShots)"

definition filterClearedAfterCapture :: page where
  "filterClearedAfterCapture =
    clickFilter (filters ! 0)
      (clickStartCapture noInput (clickFilter (filters ! 1) cameraReady) ''10:00'' threeShots)"

section \<open>Properties of the capture sequencer\<close>

subsection \<open>The state after a run\<close>

lemma setters_append: "setters (xs @ ys) = setters xs @ setters ys"
  by (induction xs rule: setters.induct) auto

lemma apply_all_append: "apply_all (as @ bs) c = apply_all bs (apply_all as c)"
  by (simp add: apply_all_def)

lemma apply_all_snoc: "apply_all (as @ [a]) c = apply_action a (apply_all as c)"
  by (simp add: apply_all_def)

lemma cur_commit: "cur (commit as pg) = apply_all as (cur pg)"
  by (simp add: commit_def Let_def)

lemma commit_Nil: "commit [] pg = pg"
  by (simp add: commit_def apply_all_def)

lemma cameraReady_eval:
  "cameraReady = \<lparr>cur = initial\<lparr>stream := Some (MediaStream 0)\<rparr>, dlClosure = initial\<rparr>"
  by (simp add: cameraReady_def initializeCamera_def mounted_def commit_def apply_all_def)

lemma cur_inputs: "cur (inputs as pg) = apply_all as (cur pg)"
  unfolding inputs_def
  by (induction as arbitrary: pg) (simp_all add: apply_all_def cur_commit)

lemma cur_exec:
  "cur (exec user k steps pend pg) = apply_all (pend @ timeline user k steps) (cur pg)"
  by (induction user k steps pend pg rule: exec.induct)
    (simp_all add: cur_commit cur_inputs apply_all_append)

text \<open>Inputs made during a run do not touch what the session owns.\<close>

lemma session_apply_action: "session (apply_action a c) = sessionEffect a (session c)"
  by (cases a) (simp_all add: session_def)

lemma session_apply_all:
  "session (apply_all as c) = foldl (\<lambda>s a. sessionEffect a s) (session c) as"
  unfolding apply_all_def
  by (induction as arbitrary: c) (simp_all add: session_apply_action)

lemma userAction_session: "userAction a \<Longrightarrow> sessionEffect a s = s"
  by (cases a; cases s) simp_all

lemma userActions_session:
  "\<forall>a \<in> set as. userAction a \<Longrightarrow> foldl (\<lambda>s a. sessionEffect a s) s as = s"
  by (induction as arbitrary: s) (simp_all add: userAction_session)

lemma timeline_session:
  "userOnly user \<Longrightarrow>
   foldl (\<lambda>s a. sessionEffect a s) s (timeline user k steps)
     = foldl (\<lambda>s a. sessionEffect a s) s (setters steps)"
proof (induction user k steps arbitrary: s rule: timeline.induct)
  case (3 user k ms r)
  have "\<forall>a \<in> set (user k). userAction a"
    using "3.prems" by (simp add: userOnly_def)
  then show ?case
    using "3.IH"[OF "3.prems"] by (simp add: userActions_session)
qed simp_all

lemma session_exec:
  "userOnly user \<Longrightarrow>
   session (cur (exec user k steps pend pg)) = session (apply_all (pend @ setters steps) (cur pg))"
  by (simp add: cur_exec session_apply_all timeline_session)

lemma session_inputs:
  "\<forall>a \<in> set as. userAction a \<Longrightarrow> session (cur (inputs as pg)) = session (cur pg)"
  by (simp add: cur_inputs session_apply_all userActions_session)

lemma session_fields:
  "session c = session c' \<Longrightarrow>
   capturedPhotos c = capturedPhotos c' \<and> isCapturing c = isCapturing c'
     \<and> captureTime c = captureTime c'"
  by (simp add: session_def)

lemma clicked:
  assumes "\<not> isCapturing (cur pg)" and "stream (cur pg) \<noteq> None" and "userOnly user"
  shows "session (cur (clickStartCapture user pg now env))
     = session (apply_all (setters (startPhotoSequence (cur pg) now env)) (cur pg))"
  using assms session_exec[of user 0 "startPhotoSequence (cur pg) now env" "[]" pg]
  by (auto simp: clickStartCapture_def)

subsection \<open>The snapshots of a run\<close>

lemma capturedPhotos_apply_action:
  "capturedPhotos (apply_action a c) = photoEffect a (capturedPhotos c)"
  by (cases a) simp_all

lemma capturedPhotos_apply_all:
  "capturedPhotos (apply_all as c) = foldl (\<lambda>xs a. photoEffect a xs) (capturedPhotos c) as"
  unfolding apply_all_def
  by (induction as arbitrary: c) (simp_all add: capturedPhotos_apply_action)

lemma countdown_photos:
  "foldl (\<lambda>xs a. photoEffect a xs) xs (setters (countdown n)) = xs"
proof (induction n rule: countdown.induct)
  case (1 count)
  then show ?case by (subst countdown.simps) simp
qed

lemma shot_photos:
  "foldl (\<lambda>xs a. photoEffect a xs) xs
     (setters (case capturePhoto af (env i) of
                 Some photo \<Rightarrow> [Call (AppendPhoto photo)]
               | None \<Rightarrow> []))
     = xs @ shot af env i"
  by (simp add: shot_def split: option.splits)

lemma photoLoop_photos:
  "foldl (\<lambda>xs a. photoEffect a xs) xs (setters (photoLoop cd af env i))
     = xs @ concat (map (shot af env) [i..<3])"
proof (induction cd af env i arbitrary: xs rule: photoLoop.induct)
  case (1 cd af env i)
  show ?case
  proof (cases "i < 3")
    case True
    then show ?thesis
      using 1[OF True]
      by (subst photoLoop.simps)
        (simp add: setters_append countdown_photos shot_photos upt_conv_Cons)
  next
    case False
    then show ?thesis by (subst photoLoop.simps) simp
  qed
qed

lemma upt3: "[0..<3] = [0, 1, 2]"
  by (simp add: upt_conv_Cons)

lemma sequence_photos:
  "\<not> isCapturing c \<Longrightarrow>
   capturedPhotos (apply_all (setters (startPhotoSequence c now env)) c)
     = shot (activeFilter c) env 0 @ shot (activeFilter c) env 1 @ shot (activeFilter c) env 2"
  by (simp add: startPhotoSequence_def capturedPhotos_apply_all setters_append
      photoLoop_photos upt3)

lemma sequence_finished:
  "\<not> isCapturing c \<Longrightarrow>
   \<not> isCapturing (apply_all (setters (startPhotoSequence c now env)) c)"
proof -
  assume n: "\<not> isCapturing c"
  let ?as = "[SetIsCapturing True, SetCapturedPhotos [], SetCaptureTime now]
      @ setters (photoLoop (countdownTime c) (activeFilter c) env 0)"
  have "setters (startPhotoSequence c now env) = ?as @ [SetIsCapturing False]"
    using n by (simp add: startPhotoSequence_def setters_append)
  then show ?thesis
    by (simp only: apply_all_snoc) simp
qed

lemma shot_available:
  "available (env i) \<Longrightarrow> shot af env i = [JpegDataURL (cssFilter af) (the (videoEl (env i)))]"
  by (auto simp: shot_def capturePhoto_def available_def)

lemma shot_unavailable: "\<not> available (env i) \<Longrightarrow> shot af env i = []"
  by (auto simp: shot_def capturePhoto_def available_def split: option.splits)

lemma length_shot: "length (shot af env i) \<le> 1"
  by (simp add: shot_def split: option.splits)

text \<open>
  Claim C3. A capture sequence started by the button (no sequence running, a stream
  attached), whatever the user does with the other controls while it runs, ends with
  exactly the snapshots of the shots whose surface was available, in shot order: at most
  three; all three, of the frames of shots 0, 1 and 2 in that order, when the surface is
  available at every shot; and when it is unavailable at shot \<open>j\<close>, that shot alone adds
  nothing while the other shots are taken as before. The sequence runs to its end:
  \<^verbatim>\<open>isCapturing\<close> is false again.
\<close>
theorem capture_sequence_snapshots:
  assumes "\<not> isCapturing (cur pg)" and "stream (cur pg) \<noteq> None" and "userOnly user"
  shows
    "(let af = activeFilter (cur pg);
          final = cur (clickStartCapture user pg now env);
          photos = capturedPhotos final
      in photos = List.map_filter (\<lambda>i. capturePhoto af (env i)) [0, 1, 2]
       \<and> length photos \<le> 3
       \<and> ((\<forall>i < 3. available (env i)) \<longrightarrow>
            photos = map (\<lambda>i. JpegDataURL (cssFilter af) (the (videoEl (env i)))) [0, 1, 2])
       \<and> (\<forall>j < 3. \<not> available (env j) \<longrightarrow>
            photos = List.map_filter (\<lambda>i. capturePhoto af (env i)) (removeAll j [0, 1, 2]))
       \<and> \<not> isCapturing final)"
proof -
  let ?af = "activeFilter (cur pg)"
  let ?final = "cur (clickStartCapture user pg now env)"
  note same = session_fields[OF clicked[OF assms, of now env]]
  have ph: "capturedPhotos ?final = shot ?af env 0 @ shot ?af env 1 @ shot ?af env 2"
    using same assms(1) by (simp add: sequence_photos)
  have a: "capturedPhotos ?final = List.map_filter (\<lambda>i. capturePhoto ?af (env i)) [0, 1, 2]"
    by (simp add: ph shot_def List.map_filter_def split: option.splits)
  have b: "length (capturedPhotos ?final) \<le> 3"
    using length_shot[of ?af env 0] length_shot[of ?af env 1] length_shot[of ?af env 2]
    by (simp add: ph)
  have c: "(\<forall>i < 3. available (env i)) \<longrightarrow>
      capturedPhotos ?final = map (\<lambda>i. JpegDataURL (cssFilter ?af) (the (videoEl (env i)))) [0, 1, 2]"
    by (simp add: ph shot_available)
  have d: "\<forall>j < 3. \<not> available (env j) \<longrightarrow>
      capturedPhotos ?final = List.map_filter (\<lambda>i. capturePhoto ?af (env i)) (removeAll j [0, 1, 2])"
  proof (intro allI impI)
    fix j :: nat assume "j < 3" and na: "\<not> available (env j)"
    then consider "j = 0" | "j = 1" | "j = 2" by linarith
    then show "capturedPhotos ?final
        = List.map_filter (\<lambda>i. capturePhoto ?af (env i)) (removeAll j [0, 1, 2])"
    proof cases
      case 1 then show ?thesis using na shot_unavailable[of env 0 ?af]
        by (simp add: ph List.map_filter_def shot_def split: option.splits)
    next
      case 2 then show ?thesis using na shot_unavailable[of env 1 ?af]
        by (simp add: ph List.map_filter_def shot_def split: option.splits)
    next
      case 3 then show ?thesis using na shot_unavailable[of env 2 ?af]
        by (simp add: ph List.map_filter_def shot_def split: option.splits)
    qed
  qed
  have e: "\<not> isCapturing ?final"
    using same assms(1) by (simp add: sequence_finished)
  show ?thesis
    unfolding Let_def using a b c d e by blast
qed

text \<open>
  Three good shots give three snapshots; with the video element missing at the second
  shot the first and third are kept, in order. In both runs the user selects another
  filter during the second suspension: the snapshots still carry the filter that was
  active when the run started.
\<close>
theorem capture_sequence_snapshots_witness:
  "capturedPhotos (cur (clickStartCapture
       (\<lambda>k. if k = 1 then [SetActiveFilter (filters ! 1)] else []) cameraReady ''10:00''
       threeShots))
     = [JpegDataURL ''none'' 10, JpegDataURL ''none'' 11, JpegDataURL ''none'' 12]
   \<and> capturedPhotos (cur (clickStartCapture
       (\<lambda>k. if k = 1 then [SetActiveFilter (filters ! 1)] else []) cameraReady ''10:00''
       (\<lambda>i. \<lparr>videoEl = (if i = 1 then None else Some (10 + i)), canvasEl = True,
              context2d = True\<rparr>)))
     = [JpegDataURL ''none'' 10, JpegDataURL ''none'' 12]"
proof -
  let ?user = "\<lambda>k::nat. if k = 1 then [SetActiveFilter (filters ! 1)] else []"
  note pg = cameraReady_eval
  have h: "\<not> isCapturing (cur cameraReady)" "stream (cur cameraReady) \<noteq> None"
    by (simp_all add: pg initial_def)
  have u: "userOnly ?user"
    by (simp add: userOnly_def)
  show ?thesis
    using
      capture_sequence_snapshots[OF h u, of "''10:00''" threeShots]
      capture_sequence_snapshots[OF h u, of "''10:00''"
        "\<lambda>i. \<lparr>videoEl = (if i = 1 then None else Some (10 + i)), canvasEl = True,
               context2d = True\<rparr>"]
    by (simp add: pg initial_def filters_def Let_def capturePhoto_def List.map_filter_def
        threeShots_def)
qed

subsection \<open>The shape of a run\<close>

lemma countdown_actions: "a \<in> set (setters (countdown n)) \<Longrightarrow> loopAction a"
proof (induction n rule: countdown.induct)
  case (1 count)
  from "1.prems" show ?case
    by (subst (asm) countdown.simps) (auto split: if_splits dest: "1.IH")
qed

lemma photoLoop_actions: "a \<in> set (setters (photoLoop cd af env i)) \<Longrightarrow> loopAction a"
proof (induction cd af env i rule: photoLoop.induct)
  case (1 cd af env i)
  show ?case
  proof (cases "i < 3")
    case True
    with "1.prems" "1.IH"[OF True] show ?thesis
      by (subst (asm) photoLoop.simps)
        (auto simp: setters_append split: if_splits option.splits dest: countdown_actions)
  next
    case False
    with "1.prems" show ?thesis
      by (subst (asm) photoLoop.simps) simp
  qed
qed

lemma set_setters_prefix: "set (setters xs) \<subseteq> set (setters (xs @ ys))"
  by (simp add: setters_append)

lemma sequence_prefix:
  assumes "\<not> isCapturing c"
    and "startPhotoSequence c now env = pre @ Await ms # post"
  shows "\<exists>pre' rest.
      pre = [Call (SetIsCapturing True), Call (SetCapturedPhotos []), Call (SetCaptureTime now)] @ pre'
    \<and> photoLoop (countdownTime c) (activeFilter c) env 0 = pre' @ Await ms # rest
    \<and> post = rest @ [Call (SetIsCapturing False)]"
  using assms
  by (auto simp: startPhotoSequence_def Cons_eq_append_conv append_eq_append_conv2
      append_eq_Cons_conv)

lemma prefix_actions:
  assumes "\<not> isCapturing c"
    and "startPhotoSequence c now env = pre @ Await ms # post"
  shows "\<exists>as. setters pre = [SetIsCapturing True, SetCapturedPhotos [], SetCaptureTime now] @ as
     \<and> (\<forall>a \<in> set as. loopAction a)"
proof -
  from sequence_prefix[OF assms] obtain pre' rest where
    p: "pre = [Call (SetIsCapturing True), Call (SetCapturedPhotos []), Call (SetCaptureTime now)] @ pre'"
    and l: "photoLoop (countdownTime c) (activeFilter c) env 0 = pre' @ Await ms # rest"
    by blast
  have "\<forall>a \<in> set (setters pre'). loopAction a"
    using photoLoop_actions[of _ "countdownTime c" "activeFilter c" env 0]
      set_setters_prefix[of pre' "Await ms # rest"]
    unfolding l by blast
  with p show ?thesis by simp
qed

lemma loopAction_keeps:
  "loopAction a \<Longrightarrow> isCapturing (apply_action a c) = isCapturing c
     \<and> captureTime (apply_action a c) = captureTime c"
  by (cases a) simp_all

lemma loopActions_keep:
  "\<forall>a \<in> set as. loopAction a \<Longrightarrow> isCapturing (apply_all as c) = isCapturing c
     \<and> captureTime (apply_all as c) = captureTime c"
  unfolding apply_all_def
  by (induction as arbitrary: c) (simp_all add: loopAction_keeps)

text \<open>
  The page at a suspension of a running sequence, after any inputs \<open>us\<close> made there:
  the sequence is marked as running and the time stamp is the one set at the start.
\<close>

lemma running:
  assumes "\<not> isCapturing (cur pg)" and "userOnly user"
    and "startPhotoSequence (cur pg) now env = pre @ Await ms # post"
    and "\<forall>a \<in> set us. userAction a"
  shows "isCapturing (cur (inputs us (exec user 0 pre [] pg)))
     \<and> captureTime (cur (inputs us (exec user 0 pre [] pg))) = now"
proof -
  from prefix_actions[OF assms(1,3)] obtain as where
    s: "setters pre = [SetIsCapturing True, SetCapturedPhotos [], SetCaptureTime now] @ as"
    and l: "\<forall>a \<in> set as. loopAction a"
    by blast
  let ?c = "apply_all ([] @ setters pre) (cur pg)"
  have "session (cur (inputs us (exec user 0 pre [] pg))) = session ?c"
    using session_inputs[OF assms(4)] session_exec[OF assms(2)] by simp
  moreover have "isCapturing ?c \<and> captureTime ?c = now"
    using loopActions_keep[OF l] by (simp add: s apply_all_append) (simp add: apply_all_def)
  ultimately show ?thesis
    using session_fields by metis
qed

lemma exec_await:
  "exec user k (pre @ Await ms # post) pend pg
     = exec user (Suc (k + awaits pre)) post []
         (inputs (user (k + awaits pre)) (exec user k pre pend pg))"
  by (induction user k pre pend pg rule: exec.induct) simp_all

text \<open>
  Claim C4. Starting a capture is a no-op while a sequence is running or no stream is
  attached. \<^verbatim>\<open>startPhotoSequence\<close> itself returns at its guard when \<^verbatim>\<open>isCapturing\<close>
  holds: it calls no setter, and the page is unchanged. The button is disabled when
  \<^verbatim>\<open>isCapturing\<close> holds or the stream is \<^verbatim>\<open>null\<close>, so a click leaves the page
  unchanged. And a sequence is running exactly in this sense: a run that suspends after
  the steps \<open>pre\<close> continues, once the inputs made there are handled, from the page
  reached by \<open>pre\<close>; on that page, after any inputs \<open>us\<close>, \<^verbatim>\<open>isCapturing\<close> holds, so a
  click on the button changes nothing. There is no error outcome: every operation
  returns a page.
\<close>
theorem start_rejected_is_noop:
  "(isCapturing c \<longrightarrow> startPhotoSequence c now env = [])
   \<and> (isCapturing (cur pg) \<longrightarrow> exec user 0 (startPhotoSequence (cur pg) now env) [] pg = pg)
   \<and> (isCapturing (cur pg) \<or> stream (cur pg) = None \<longrightarrow> clickStartCapture user pg now env = pg)
   \<and> (\<forall>pre ms post us user' now' env'.
        \<not> isCapturing (cur pg) \<and> userOnly user
        \<and> startPhotoSequence (cur pg) now env = pre @ Await ms # post
        \<and> (\<forall>a \<in> set us. userAction a) \<longrightarrow>
          exec user 0 (startPhotoSequence (cur pg) now env) [] pg
            = exec user (Suc (awaits pre)) post []
                (inputs (user (awaits pre)) (exec user 0 pre [] pg))
        \<and> clickStartCapture user' (inputs us (exec user 0 pre [] pg)) now' env'
            = inputs us (exec user 0 pre [] pg))"
proof -
  have a: "isCapturing c \<longrightarrow> startPhotoSequence c now env = []"
    by (simp add: startPhotoSequence_def)
  have b: "isCapturing (cur pg) \<longrightarrow> exec user 0 (startPhotoSequence (cur pg) now env) [] pg = pg"
    by (simp add: startPhotoSequence_def commit_Nil)
  have c: "isCapturing (cur pg) \<or> stream (cur pg) = None \<longrightarrow>
      clickStartCapture user pg now env = pg"
    by (simp add: clickStartCapture_def)
  have d: "\<forall>pre ms post us user' now' env'.
        \<not> isCapturing (cur pg) \<and> userOnly user
        \<and> startPhotoSequence (cur pg) now env = pre @ Await ms # post
        \<and> (\<forall>a \<in> set us. userAction a) \<longrightarrow>
          exec user 0 (startPhotoSequence (cur pg) now env) [] pg
            = exec user (Suc (awaits pre)) post []
                (inputs (user (awaits pre)) (exec user 0 pre [] pg))
        \<and> clickStartCapture user' (inputs us (exec user 0 pre [] pg)) now' env'
            = inputs us (exec user 0 pre [] pg)"
  proof (intro allI impI, elim conjE)
    fix pre ms post us user' now' env'
    assume n: "\<not> isCapturing (cur pg)" and u: "userOnly user"
      and s: "startPhotoSequence (cur pg) now env = pre @ Await ms # post"
      and us: "\<forall>a \<in> set us. userAction a"
    have "isCapturing (cur (inputs us (exec user 0 pre [] pg)))"
      using running[OF n u s us] by simp
    then have "clickStartCapture user' (inputs us (exec user 0 pre [] pg)) now' env'
        = inputs us (exec user 0 pre [] pg)"
      by (simp add: clickStartCapture_def)
    moreover have "exec user 0 (startPhotoSequence (cur pg) now env) [] pg
        = exec user (Suc (awaits pre)) post []
            (inputs (user (awaits pre)) (exec user 0 pre [] pg))"
      unfolding s using exec_await[of user 0 pre ms post "[]" pg] by simp
    ultimately show "exec user 0 (startPhotoSequence (cur pg) now env) [] pg
            = exec user (Suc (awaits pre)) post []
                (inputs (user (awaits pre)) (exec user 0 pre [] pg))
        \<and> clickStartCapture user' (inputs us (exec user 0 pre [] pg)) now' env'
            = inputs us (exec user 0 pre [] pg)"
      by simp
  qed
  from a b c d show ?thesis by blast
qed

subsection \<open>The reset and the time stamp\<close>

lemma photoLoop_unfold:
  "photoLoop cd af env 0 =
     [Call (SetIsCountingDown True)] @ countdown cd @ [Call (SetIsCountingDown False)]
       @ (case capturePhoto af (env 0) of Some photo \<Rightarrow> [Call (AppendPhoto photo)] | None \<Rightarrow> [])
       @ [Await 1000]
       @ [Call (SetIsCountingDown True)] @ countdown cd @ [Call (SetIsCountingDown False)]
       @ (case capturePhoto af (env 1) of Some photo \<Rightarrow> [Call (AppendPhoto photo)] | None \<Rightarrow> [])
       @ [Await 1000]
       @ [Call (SetIsCountingDown True)] @ countdown cd @ [Call (SetIsCountingDown False)]
       @ (case capturePhoto af (env 2) of Some photo \<Rightarrow> [Call (AppendPhoto photo)] | None \<Rightarrow> [])"
  by (simp add: photoLoop.simps[of cd af env 0] photoLoop.simps[of cd af env "Suc 0"]
      photoLoop.simps[of cd af env "Suc (Suc 0)"]
      photoLoop.simps[of cd af env "Suc (Suc (Suc 0))"] numeral_2_eq_2)

lemma countdown_3:
  "countdown 3 =
     [Call (SetCountdownValue 3), Await 1000, Call (SetCountdownValue 2), Await 1000,
      Call (SetCountdownValue 1), Await 1000]"
  by (simp add: countdown.simps)

lemma timeStamps_none: "\<forall>a \<in> set (setters steps). loopAction a \<Longrightarrow> timeStamps steps = []"
  by (induction steps rule: timeStamps.induct) auto

lemma timeStamps_append: "timeStamps (xs @ ys) = timeStamps xs @ timeStamps ys"
  by (induction xs rule: timeStamps.induct) auto

text \<open>
  The time stamp the memoized download callback closes over. A render re-creates the
  callback, or keeps one that already holds the stamp.
\<close>

lemma commit_captureTime:
  assumes "captureTime (apply_all as (cur pg)) = t"
    and "list_ex setsPhotos as \<or> captureTime (dlClosure pg) = t"
  shows "captureTime (cur (commit as pg)) = t \<and> captureTime (dlClosure (commit as pg)) = t"
  using assms by (auto simp: commit_def Let_def)

lemma inputs_captureTime:
  assumes "\<forall>a \<in> set as. userAction a"
    and "captureTime (cur pg) = t" and "captureTime (dlClosure pg) = t"
  shows "captureTime (cur (inputs as pg)) = t \<and> captureTime (dlClosure (inputs as pg)) = t"
  using assms
proof (induction as arbitrary: pg)
  case Nil
  then show ?case by (simp add: inputs_def)
next
  case (Cons a as)
  have ua: "userAction a" using Cons.prems(1) by simp
  have "captureTime (apply_all [a] (cur pg)) = t"
    using ua Cons.prems(2) by (cases a) (simp_all add: apply_all_def)
  then have "captureTime (cur (commit [a] pg)) = t \<and> captureTime (dlClosure (commit [a] pg)) = t"
    using Cons.prems(3) by (intro commit_captureTime) simp_all
  then have "captureTime (cur (inputs as (commit [a] pg))) = t
      \<and> captureTime (dlClosure (inputs as (commit [a] pg))) = t"
    using Cons.prems(1) by (intro Cons.IH) simp_all
  then show ?case by (simp add: inputs_def)
qed

lemma exec_captureTime:
  assumes "\<forall>a \<in> set (setters steps). loopAction a \<or> a = SetIsCapturing False"
    and "userOnly user"
    and "captureTime (apply_all pend (cur pg)) = t"
    and "list_ex setsPhotos pend \<or> captureTime (dlClosure pg) = t"
  shows "captureTime (cur (exec user k steps pend pg)) = t
     \<and> captureTime (dlClosure (exec user k steps pend pg)) = t"
  using assms
proof (induction user k steps pend pg rule: exec.induct)
  case (1 user k pend pg)
  then show ?case by (simp add: commit_captureTime)
next
  case (2 user k a r pend pg)
  have keep: "captureTime (apply_action a c) = captureTime c" for c
    using "2.prems"(1) loopAction_keeps[of a c] by auto
  have p1: "\<forall>a \<in> set (setters r). loopAction a \<or> a = SetIsCapturing False"
    using "2.prems"(1) by simp
  have p3: "captureTime (apply_all (pend @ [a]) (cur pg)) = t"
    using "2.prems"(3) by (simp add: apply_all_snoc keep)
  have p4: "list_ex setsPhotos (pend @ [a]) \<or> captureTime (dlClosure pg) = t"
    using "2.prems"(4) by auto
  from "2.IH"[OF p1 "2.prems"(2) p3 p4] show ?case by simp
next
  case (3 user k ms r pend pg)
  let ?pg = "inputs (user k) (commit pend pg)"
  have p1: "\<forall>a \<in> set (setters r). loopAction a \<or> a = SetIsCapturing False"
    using "3.prems"(1) by simp
  have u: "\<forall>a \<in> set (user k). userAction a"
    using "3.prems"(2) by (simp add: userOnly_def)
  have c: "captureTime (cur (commit pend pg)) = t \<and> captureTime (dlClosure (commit pend pg)) = t"
    using "3.prems"(3,4) by (intro commit_captureTime)
  have i: "captureTime (cur ?pg) = t \<and> captureTime (dlClosure ?pg) = t"
    using inputs_captureTime[OF u] c by blast
  have p3: "captureTime (apply_all [] (cur ?pg)) = t"
    using i by (simp add: apply_all_def)
  have p4: "list_ex setsPhotos [] \<or> captureTime (dlClosure ?pg) = t"
    using i by simp
  from "3.IH"[OF p1 "3.prems"(2) p3 p4] show ?case by simp
qed

text \<open>
  Claim C5. A capture sequence that starts first calls \<^verbatim>\<open>setIsCapturing(true)\<close>,
  \<^verbatim>\<open>setCapturedPhotos([])\<close> and \<^verbatim>\<open>setCaptureTime(now)\<close>, in this order and before
  anything else; every later setter call of the run belongs to the loop (countdown,
  append) or is the final \<^verbatim>\<open>setIsCapturing(false)\<close>. So the reset precedes the first
  append, the snapshots at the end are the new ones only, and the time stamp is set
  exactly once: whatever the user does with the other controls meanwhile, it is the value
  at every suspension of the run, the value the page displays at the end and the value
  the memoized download callback closes over.
\<close>
theorem sequence_start_resets_once:
  assumes "\<not> isCapturing (cur pg)" and "stream (cur pg) \<noteq> None" and "userOnly user"
  shows
    "(let steps = startPhotoSequence (cur pg) now env;
          final = clickStartCapture user pg now env
      in take 3 steps = [Call (SetIsCapturing True), Call (SetCapturedPhotos []), Call (SetCaptureTime now)]
       \<and> (\<forall>a \<in> set (setters (drop 3 steps)). loopAction a \<or> a = SetIsCapturing False)
       \<and> timeStamps steps = [now]
       \<and> capturedPhotos (cur final)
           = List.map_filter (\<lambda>i. capturePhoto (activeFilter (cur pg)) (env i)) [0, 1, 2]
       \<and> captureTime (cur final) = now
       \<and> captureTime (dlClosure final) = now
       \<and> (\<forall>pre ms post us. steps = pre @ Await ms # post \<and> (\<forall>a \<in> set us. userAction a) \<longrightarrow>
             captureTime (cur (inputs us (exec user 0 pre [] pg))) = now))"
proof -
  let ?c = "cur pg"
  let ?steps = "startPhotoSequence ?c now env"
  let ?L = "photoLoop (countdownTime ?c) (activeFilter ?c) env 0"
  let ?head = "[Call (SetIsCapturing True), Call (SetCapturedPhotos []), Call (SetCaptureTime now)]"
  have steps: "?steps = ?head @ ?L @ [Call (SetIsCapturing False)]"
    using assms(1) by (simp add: startPhotoSequence_def)
  have a: "take 3 ?steps = ?head"
    by (simp add: steps)
  have tl: "\<forall>a \<in> set (setters (?L @ [Call (SetIsCapturing False)])). loopAction a \<or> a = SetIsCapturing False"
    using photoLoop_actions[of _ "countdownTime ?c" "activeFilter ?c" env 0]
    by (auto simp: setters_append)
  have b: "\<forall>a \<in> set (setters (drop 3 ?steps)). loopAction a \<or> a = SetIsCapturing False"
    using tl by (simp add: steps)
  have "timeStamps ?L = []"
    using photoLoop_actions[of _ "countdownTime ?c" "activeFilter ?c" env 0]
    by (intro timeStamps_none) blast
  then have c: "timeStamps ?steps = [now]"
    by (simp add: steps timeStamps_append)
  have d: "capturedPhotos (cur (clickStartCapture user pg now env))
      = List.map_filter (\<lambda>i. capturePhoto (activeFilter ?c) (env i)) [0, 1, 2]"
    using session_fields[OF clicked[OF assms, of now env]] assms(1)
    by (simp add: sequence_photos shot_def List.map_filter_def split: option.splits)
  have ex: "clickStartCapture user pg now env
      = exec user 0 (?L @ [Call (SetIsCapturing False)])
          [SetIsCapturing True, SetCapturedPhotos [], SetCaptureTime now] pg"
    using assms by (auto simp: clickStartCapture_def steps)
  have e: "captureTime (cur (clickStartCapture user pg now env)) = now
      \<and> captureTime (dlClosure (clickStartCapture user pg now env)) = now"
    unfolding ex
    by (rule exec_captureTime[OF tl assms(3)]) (simp_all add: apply_all_def)
  have f: "\<forall>pre ms post us. ?steps = pre @ Await ms # post \<and> (\<forall>a \<in> set us. userAction a) \<longrightarrow>
             captureTime (cur (inputs us (exec user 0 pre [] pg))) = now"
    using running[OF assms(1,3)] by blast
  show ?thesis
    unfolding Let_def using a b c d e f by blast
qed

text \<open>
  A page that shows an earlier session (one snapshot, stamped 09:00) starts a new one at
  10:00, and the user selects another filter while it runs.
\<close>
theorem sequence_start_resets_once_witness:
  "timeStamps (startPhotoSequence
       (initial\<lparr>stream := Some (MediaStream 0), captureTime := ''09:00'',
                capturedPhotos := [JpegDataURL ''none'' 1]\<rparr>) ''10:00'' threeShots) = [''10:00'']
   \<and> capturedPhotos (cur (clickStartCapture
       (\<lambda>k. if k = 1 then [SetActiveFilter (filters ! 1)] else [])
       \<lparr>cur = initial\<lparr>stream := Some (MediaStream 0), captureTime := ''09:00'',
                capturedPhotos := [JpegDataURL ''none'' 1]\<rparr>, dlClosure = initial\<rparr> ''10:00''
       threeShots))
       = [JpegDataURL ''none'' 10, JpegDataURL ''none'' 11, JpegDataURL ''none'' 12]
   \<and> captureTime (cur (clickStartCapture
       (\<lambda>k. if k = 1 then [SetActiveFilter (filters ! 1)] else [])
       \<lparr>cur = initial\<lparr>stream := Some (MediaStream 0), captureTime := ''09:00'',
                capturedPhotos := [JpegDataURL ''none'' 1]\<rparr>, dlClosure = initial\<rparr> ''10:00''
       threeShots)) = ''10:00''
   \<and> captureTime (dlClosure (clickStartCapture
       (\<lambda>k. if k = 1 then [SetActiveFilter (filters ! 1)] else [])
       \<lparr>cur = initial\<lparr>stream := Some (MediaStream 0), captureTime := ''09:00'',
                capturedPhotos := [JpegDataURL ''none'' 1]\<rparr>, dlClosure = initial\<rparr> ''10:00''
       threeShots)) = ''10:00''"
proof -
  let ?pg = "\<lparr>cur = initial\<lparr>stream := Some (MediaStream 0), captureTime := ''09:00'',
                capturedPhotos := [JpegDataURL ''none'' 1]\<rparr>, dlClosure = initial\<rparr>"
  let ?user = "\<lambda>k::nat. if k = 1 then [SetActiveFilter (filters ! 1)] else []"
  have h1: "\<not> isCapturing (cur ?pg)" by (simp add: initial_def)
  have h2: "stream (cur ?pg) \<noteq> None" by simp
  have u: "userOnly ?user" by (simp add: userOnly_def)
  show ?thesis
    using sequence_start_resets_once[OF h1 h2 u, of "''10:00''" threeShots]
    by (simp add: Let_def initial_def filters_def capturePhoto_def List.map_filter_def
        threeShots_def)
qed

text \<open>
  The guard of the function, the disabled button while capturing, the disabled button
  without a stream, and a click during the first countdown of a running sequence, after
  the user has selected another filter.
\<close>
theorem start_rejected_is_noop_witness:
  "startPhotoSequence (initial\<lparr>isCapturing := True\<rparr>) ''10:00'' threeShots = []
   \<and> clickStartCapture noInput
        \<lparr>cur = initial\<lparr>stream := Some (MediaStream 0), isCapturing := True\<rparr>,
         dlClosure = initial\<rparr> ''10:00'' threeShots
       = \<lparr>cur = initial\<lparr>stream := Some (MediaStream 0), isCapturing := True\<rparr>, dlClosure = initial\<rparr>
   \<and> clickStartCapture noInput mounted ''10:00'' threeShots = mounted
   \<and> clickStartCapture noInput
        (inputs [SetActiveFilter (filters ! 1)]
           (exec noInput 0
              [Call (SetIsCapturing True), Call (SetCapturedPhotos []), Call (SetCaptureTime ''10:00''),
               Call (SetIsCountingDown True), Call (SetCountdownValue 3)] [] cameraReady))
        ''10:01'' threeShots
       = inputs [SetActiveFilter (filters ! 1)]
           (exec noInput 0
              [Call (SetIsCapturing True), Call (SetCapturedPhotos []), Call (SetCaptureTime ''10:00''),
               Call (SetIsCountingDown True), Call (SetCountdownValue 3)] [] cameraReady)"
proof -
  let ?run = "\<lparr>cur = initial\<lparr>stream := Some (MediaStream 0), isCapturing := True\<rparr>,
               dlClosure = initial\<rparr>"
  let ?pre = "[Call (SetIsCapturing True), Call (SetCapturedPhotos []), Call (SetCaptureTime ''10:00''),
               Call (SetIsCountingDown True), Call (SetCountdownValue 3)]"
  note pg = cameraReady_eval
  have a: "startPhotoSequence (initial\<lparr>isCapturing := True\<rparr>) ''10:00'' threeShots = []"
    using start_rejected_is_noop[of "initial\<lparr>isCapturing := True\<rparr>" "''10:00''" threeShots
        ?run noInput]
    by simp
  have b: "clickStartCapture noInput ?run ''10:00'' threeShots = ?run"
    using start_rejected_is_noop[of initial "''10:00''" threeShots ?run noInput] by simp
  have c: "clickStartCapture noInput mounted ''10:00'' threeShots = mounted"
    using start_rejected_is_noop[of initial "''10:00''" threeShots mounted noInput]
    by (simp add: mounted_def initial_def)
  have n: "\<not> isCapturing (cur cameraReady)" by (simp add: pg initial_def)
  have u: "userOnly noInput" by (simp add: userOnly_def noInput_def)
  have s: "startPhotoSequence (cur cameraReady) ''10:00'' threeShots
      = ?pre @ Await 1000 # drop 6 (startPhotoSequence (cur cameraReady) ''10:00'' threeShots)"
    by (simp add: startPhotoSequence_def pg initial_def photoLoop_unfold countdown_3)
  have us: "\<forall>a \<in> set [SetActiveFilter (filters ! 1)]. userAction a" by simp
  have d: "clickStartCapture noInput (inputs [SetActiveFilter (filters ! 1)]
        (exec noInput 0 ?pre [] cameraReady)) ''10:01'' threeShots
      = inputs [SetActiveFilter (filters ! 1)] (exec noInput 0 ?pre [] cameraReady)"
    using start_rejected_is_noop[of initial "''10:00''" threeShots cameraReady noInput] n u s us
    by blast
  from a b c d show ?thesis by blast
qed

section \<open>Properties of the compositor\<close>

lemma photoOnload_fields:
  "canvasWidth (photoOnload c env i img now st) = canvasWidth st"
  "canvasHeight (photoOnload c env i img now st) = canvasHeight st"
  "loadedCount (photoOnload c env i img now st) = loadedCount st + 1"
  "photoPending (photoOnload c env i img now st) = photoPending st"
  "stickerPending (photoOnload c env i img now st) =
     (case stickerSrc c of Some src \<Rightarrow> (stickerPending st)(i \<mapsto> src) | None \<Rightarrow> stickerPending st)"
  by (simp_all add: photoOnload_def Let_def stickerSrc_def split: option.splits)

lemma photoOnload_calls:
  "calls (photoOnload c env i img now st) =
     calls st @ photoCalls c env i img
       @ (if loadedCount st + 1 = length (capturedPhotos c) then labelCalls c else [])"
  by (simp add: photoOnload_def Let_def photoCalls_def labelCalls_def split: option.splits)

lemma photoOnload_downloads:
  "downloads (photoOnload c env i img now st) =
     downloads st @
       (if loadedCount st + 1 = length (capturedPhotos c)
        then [\<lparr>filename = ''cosmic-photobooth-'' @ decimal now @ ''.jpg'',
               href = calls st @ photoCalls c env i img @ labelCalls c\<rparr>]
        else [])"
  by (simp add: photoOnload_def Let_def photoCalls_def labelCalls_def split: option.splits)

lemma stickerOnload_fields:
  "canvasWidth (stickerOnload src i rnd st) = canvasWidth st"
  "canvasHeight (stickerOnload src i rnd st) = canvasHeight st"
  "loadedCount (stickerOnload src i rnd st) = loadedCount st"
  "photoPending (stickerOnload src i rnd st) = photoPending st"
  "stickerPending (stickerOnload src i rnd st) = stickerPending st"
  "downloads (stickerOnload src i rnd st) = downloads st"
  by (simp_all add: stickerOnload_def)

lemma run_snoc: "run c env (evs @ [e]) st = fire c env e (run c env evs st)"
  by (simp add: run_def)

lemma run_Nil: "run c env [] st = st"
  by (simp add: run_def)

lemma photoLoads_append: "photoLoads (xs @ ys) = photoLoads xs @ photoLoads ys"
  by (induction xs rule: photoLoads.induct) auto

lemma stickerLoads_append: "stickerLoads (xs @ ys) = stickerLoads xs @ stickerLoads ys"
  by (induction xs rule: stickerLoads.induct) auto

lemma dom_enumerate: "dom (map_of (List.enumerate 0 xs)) = {..<length xs}"
  by (auto simp: dom_map_of_conv_image_fst simp flip: set_map)

lemma started:
  assumes "downloadPhotoStrip c env styleArg colorArg = Some st0"
  shows "capturedPhotos c \<noteq> []" and "context2dAvailable env"
    and "canvasWidth st0 = stripWidth"
    and "canvasHeight st0 = stripHeight (real (length (capturedPhotos c)))"
    and "loadedCount st0 = 0" and "downloads st0 = []"
    and "photoPending st0 = map_of (List.enumerate 0 (capturedPhotos c))"
    and "stickerPending st0 = Map.empty"
    and "calls st0 = background (case styleArg of None \<Rightarrow> selectedStripStyle c | Some s \<Rightarrow> s)
           (case colorArg of None \<Rightarrow> customColor c | Some s \<Rightarrow> s) stripWidth
           (stripHeight (real (length (capturedPhotos c)))) @ topMessage"
  using assms by (auto simp: downloadPhotoStrip_def Let_def split: if_splits)

text \<open>The counting barrier.\<close>

lemma barrier:
  assumes "downloadPhotoStrip c env styleArg colorArg = Some st0"
  shows "dom (photoPending (run c env evs st0)) = {..<length (capturedPhotos c)} - set (photoLoads evs)
     \<and> loadedCount (run c env evs st0) = card ({..<length (capturedPhotos c)} \<inter> set (photoLoads evs))
     \<and> (downloads (run c env evs st0) \<noteq> [] \<longleftrightarrow> {..<length (capturedPhotos c)} \<subseteq> set (photoLoads evs))
     \<and> length (downloads (run c env evs st0)) \<le> 1"
proof (induction evs rule: rev_induct)
  case Nil
  have "length (capturedPhotos c) \<noteq> 0" using started(1)[OF assms] by simp
  then have "\<not> {..<length (capturedPhotos c)} \<subseteq> {}" by auto
  then show ?case
    using started[OF assms] by (simp add: run_Nil dom_enumerate)
next
  case (snoc e evs)
  let ?n = "length (capturedPhotos c)"
  let ?st = "run c env evs st0"
  let ?L = "{..<?n} \<inter> set (photoLoads evs)"
  have fin: "finite ?L" by simp
  have sub: "?L \<subseteq> {..<?n}" by simp
  show ?case
  proof (cases e)
    case (StickerLoad i rnd)
    then show ?thesis
      using snoc
      by (auto simp: run_snoc photoLoads_append stickerOnload_fields split: option.splits)
  next
    case (PhotoLoad i now)
    show ?thesis
    proof (cases "photoPending ?st i")
      case None
      then have "i \<notin> {..<?n} - set (photoLoads evs)" using snoc by blast
      then have "{..<?n} \<inter> set (photoLoads (evs @ [e])) = ?L"
        and "{..<?n} - set (photoLoads (evs @ [e])) = {..<?n} - set (photoLoads evs)"
        and "({..<?n} \<subseteq> set (photoLoads (evs @ [e]))) = ({..<?n} \<subseteq> set (photoLoads evs))"
        using PhotoLoad by (auto simp: photoLoads_append)
      then show ?thesis
        using snoc None PhotoLoad by (simp add: run_snoc)
    next
      case (Some img)
      then have i: "i \<in> {..<?n}" "i \<notin> set (photoLoads evs)" using snoc by blast+
      have L': "{..<?n} \<inter> set (photoLoads (evs @ [e])) = insert i ?L"
        using PhotoLoad i by (auto simp: photoLoads_append)
      have card': "card (insert i ?L) = card ?L + 1"
        using i fin by simp
      have lt: "card ?L < ?n"
      proof -
        have "?L \<subseteq> {..<?n} - {i}" using i by blast
        then have "card ?L \<le> card ({..<?n} - {i})" by (intro card_mono) auto
        also have "\<dots> < ?n" using i by simp
        finally show ?thesis .
      qed
      have full: "(card ?L + 1 = ?n) = ({..<?n} \<subseteq> set (photoLoads (evs @ [e])))"
      proof
        assume "card ?L + 1 = ?n"
        then have "card (insert i ?L) = card {..<?n}" using card' by simp
        moreover have "insert i ?L \<subseteq> {..<?n}" using i by blast
        ultimately have "insert i ?L = {..<?n}" by (intro card_subset_eq) auto
        then show "{..<?n} \<subseteq> set (photoLoads (evs @ [e]))" using L' by blast
      next
        assume "{..<?n} \<subseteq> set (photoLoads (evs @ [e]))"
        then have "insert i ?L = {..<?n}" using L' by blast
        then show "card ?L + 1 = ?n" using card' by (metis card_lessThan)
      qed
      have nodl: "downloads ?st = []"
        using snoc i by blast
      have st': "run c env (evs @ [e]) st0
          = photoOnload c env i img now (?st\<lparr>photoPending := (photoPending ?st)(i := None)\<rparr>)"
        using PhotoLoad Some by (simp add: run_snoc)
      have pl: "set (photoLoads (evs @ [e])) = insert i (set (photoLoads evs))"
        using PhotoLoad by (simp add: photoLoads_append)
      have dm: "dom (photoPending ?st) = {..<?n} - set (photoLoads evs)"
        using snoc by blast
      have a: "dom (photoPending (run c env (evs @ [e]) st0)) = {..<?n} - set (photoLoads (evs @ [e]))"
        unfolding st' pl by (simp add: photoOnload_fields dm) blast
      have b: "loadedCount (run c env (evs @ [e]) st0) = card ({..<?n} \<inter> set (photoLoads (evs @ [e])))"
        using snoc by (simp add: st' photoOnload_fields L' card')
      have lc: "loadedCount ?st = card ?L" using snoc by simp
      have c: "(downloads (run c env (evs @ [e]) st0) \<noteq> []) = ({..<?n} \<subseteq> set (photoLoads (evs @ [e])))"
        using full nodl lc by (simp add: st' photoOnload_downloads)
      have d: "length (downloads (run c env (evs @ [e]) st0)) \<le> 1"
        using nodl by (simp add: st' photoOnload_downloads)
      from a b c d show ?thesis by blast
    qed
  qed
qed

lemma dims_run:
  "canvasWidth (run c env evs st) = canvasWidth st \<and> canvasHeight (run c env evs st) = canvasHeight st"
proof (induction evs rule: rev_induct)
  case Nil
  show ?case by (simp add: run_Nil)
next
  case (snoc e evs)
  then show ?case
    by (cases e) (simp_all add: run_snoc photoOnload_fields stickerOnload_fields split: option.splits)
qed

text \<open>What the handler of a pending snapshot finds.\<close>

lemma pending_step:
  assumes s: "downloadPhotoStrip c env styleArg colorArg = Some st0"
    and p: "photoPending (run c env evs st0) i = Some img"
  shows "downloads (run c env evs st0) = []"
    and "i < length (capturedPhotos c)" and "i \<notin> set (photoLoads evs)"
    and "(loadedCount (run c env evs st0) + 1 = length (capturedPhotos c))
           = ({..<length (capturedPhotos c)} \<subseteq> insert i (set (photoLoads evs)))"
proof -
  let ?n = "length (capturedPhotos c)"
  let ?st = "run c env evs st0"
  note b = barrier[OF s, of evs]
  note b' = barrier[OF s, of "evs @ [PhotoLoad i 0]"]
  have "i \<in> dom (photoPending ?st)" using p by blast
  then show i: "i < ?n" "i \<notin> set (photoLoads evs)" using b by auto
  then show d: "downloads ?st = []" using b by blast
  have "downloads (run c env (evs @ [PhotoLoad i 0]) st0)
      = (if loadedCount ?st + 1 = ?n
         then [\<lparr>filename = ''cosmic-photobooth-'' @ decimal 0 @ ''.jpg'',
                href = calls ?st @ photoCalls c env i img @ labelCalls c\<rparr>]
         else [])"
    using p d by (simp add: run_snoc photoOnload_downloads photoOnload_fields)
  then have "(downloads (run c env (evs @ [PhotoLoad i 0]) st0) \<noteq> []) = (loadedCount ?st + 1 = ?n)"
    by simp
  then show "(loadedCount ?st + 1 = ?n) = ({..<?n} \<subseteq> insert i (set (photoLoads evs)))"
    using b' by (simp add: photoLoads_append)
qed

lemma filter_text_background: "filter isFillText (background s col w h) = []"
  by (simp add: background_def drawButterfly_def drawHeart_def filter_concat)

lemma filter_text_topMessage:
  "filter isFillText topMessage = [FillText ''Captured by FotoJB'' (stripWidth / 2) 40]"
  by (simp add: topMessage_def)

lemma filter_text_photoCalls: "filter isFillText (photoCalls c env i img) = []"
  by (simp add: photoCalls_def)

lemma filter_text_labelCalls:
  "filter isFillText (labelCalls c)
     = [FillText (captureTime c) (stripWidth / 2) (dateY (real (length (capturedPhotos c))))]"
  by (simp add: labelCalls_def)

lemma filter_text_drawSticker: "filter isFillText (drawSticker src y rnd k) = []"
  by (simp add: drawSticker_def Let_def)

lemma filter_text_stickers:
  "filter isFillText (concat (map (drawSticker src y rnd) ks)) = []"
  by (induction ks) (simp_all add: filter_text_drawSticker)

lemma stickerOnload_calls:
  "calls (stickerOnload src i rnd st)
     = calls st @ concat (map (drawSticker src (slotY i) rnd) [0..<nat (stickerCount rnd)])"
  by (simp add: stickerOnload_def)

text \<open>The text drawn on the canvas: the header, and the label once every snapshot has loaded.\<close>

lemma texts:
  assumes s: "downloadPhotoStrip c env styleArg colorArg = Some st0"
  shows "filter isFillText (calls (run c env evs st0))
     = FillText ''Captured by FotoJB'' (stripWidth / 2) 40
       # (if {..<length (capturedPhotos c)} \<subseteq> set (photoLoads evs)
          then [FillText (captureTime c) (stripWidth / 2) (dateY (real (length (capturedPhotos c))))]
          else [])"
proof (induction evs rule: rev_induct)
  case Nil
  have "length (capturedPhotos c) \<noteq> 0" using started(1)[OF s] by simp
  then have "\<not> {..<length (capturedPhotos c)} \<subseteq> {}" by auto
  then show ?case
    by (simp add: run_Nil started(9)[OF s] filter_text_background filter_text_topMessage)
next
  case (snoc e evs)
  let ?n = "length (capturedPhotos c)"
  let ?st = "run c env evs st0"
  show ?case
  proof (cases e)
    case (StickerLoad i rnd)
    then show ?thesis
      using snoc
      by (simp add: run_snoc photoLoads_append stickerOnload_calls filter_text_stickers
          split: option.splits)
  next
    case (PhotoLoad i now)
    show ?thesis
    proof (cases "photoPending ?st i")
      case None
      then have "i \<notin> {..<?n} - set (photoLoads evs)" using barrier[OF s, of evs] by blast
      then have "({..<?n} \<subseteq> set (photoLoads (evs @ [e]))) = ({..<?n} \<subseteq> set (photoLoads evs))"
        using PhotoLoad by (auto simp: photoLoads_append)
      then show ?thesis
        using snoc None PhotoLoad by (simp add: run_snoc)
    next
      case (Some img)
      note ps = pending_step[OF s Some]
      have notall: "\<not> {..<?n} \<subseteq> set (photoLoads evs)" using ps(2,3) by blast
      have pl: "set (photoLoads (evs @ [PhotoLoad i now])) = insert i (set (photoLoads evs))"
        by (simp add: photoLoads_append)
      show ?thesis
        using snoc notall ps(4) PhotoLoad Some
        by (simp add: run_snoc photoOnload_calls photoOnload_fields pl
            filter_text_photoCalls filter_text_labelCalls)
    qed
  qed
qed


lemma filter_sticker_background: "filter isStickerDraw (background s col w h) = []"
  by (simp add: background_def drawButterfly_def drawHeart_def filter_concat)

lemma filter_sticker_topMessage: "filter isStickerDraw topMessage = []"
  by (simp add: topMessage_def)

lemma filter_sticker_photoCalls: "filter isStickerDraw (photoCalls c env i img) = []"
  by (simp add: photoCalls_def)

lemma filter_sticker_labelCalls: "filter isStickerDraw (labelCalls c) = []"
  by (simp add: labelCalls_def)

lemma filter_sticker_drawSticker:
  "filter isStickerDraw (drawSticker src y rnd k)
     = [DrawImage (StickerImg src) (- stickerSize / 2) (- stickerSize / 2) stickerSize stickerSize]"
  by (simp add: drawSticker_def Let_def)

lemma filter_sticker_stickers:
  "filter isStickerDraw (concat (map (drawSticker src y rnd) ks))
     = replicate (length ks)
         (DrawImage (StickerImg src) (- stickerSize / 2) (- stickerSize / 2) stickerSize stickerSize)"
  by (induction ks) (simp_all add: filter_sticker_drawSticker)


lemma stickerSrc_iff:
  "stickerSrc c = Some src \<longleftrightarrow>
     selectedStickerTheme c \<noteq> ''none''
     \<and> (\<exists>theme. find (\<lambda>t. themeValue t = selectedStickerTheme c) STICKER_THEMES = Some theme
           \<and> images theme \<noteq> [] \<and> src = hd (images theme))"
  by (auto simp: stickerSrc_def split: option.splits)


lemma sticker_inv:
  assumes s: "downloadPhotoStrip c env styleArg colorArg = Some st0"
  shows "(\<forall>i src. stickerPending (run c env evs st0) i = Some src \<longrightarrow>
            stickerSrc c = Some src \<and> i \<in> set (photoLoads evs))
       \<and> (\<forall>x \<in> set (filter isStickerDraw (calls (run c env evs st0))).
            \<exists>src. stickerSrc c = Some src
              \<and> x = DrawImage (StickerImg src) (- stickerSize / 2) (- stickerSize / 2)
                      stickerSize stickerSize)
       \<and> (stickerLoads evs = [] \<longrightarrow> filter isStickerDraw (calls (run c env evs st0)) = [])"
proof (induction evs rule: rev_induct)
  case Nil
  show ?case
    by (simp add: run_Nil started[OF s] filter_sticker_background filter_sticker_topMessage)
next
  case (snoc e evs)
  let ?st = "run c env evs st0"
  show ?case
  proof (cases e)
    case (PhotoLoad i now)
    let ?e = "PhotoLoad i now"
    show ?thesis
    proof (cases "photoPending ?st i")
      case None
      then show ?thesis
        using snoc PhotoLoad
        by (simp add: run_snoc photoLoads_append stickerLoads_append)
    next
      case (Some img)
      have st': "run c env (evs @ [?e]) st0
          = photoOnload c env i img now (?st\<lparr>photoPending := (photoPending ?st)(i := None)\<rparr>)"
        using Some by (simp add: run_snoc)
      have a: "\<forall>j src. stickerPending (run c env (evs @ [?e]) st0) j = Some src \<longrightarrow>
            stickerSrc c = Some src \<and> j \<in> set (photoLoads (evs @ [?e]))"
        using snoc
        by (auto simp: st' photoOnload_fields photoLoads_append split: option.splits if_splits)
      have f: "filter isStickerDraw (calls (run c env (evs @ [?e]) st0))
          = filter isStickerDraw (calls ?st)"
        by (simp add: st' photoOnload_calls filter_sticker_photoCalls filter_sticker_labelCalls)
      have l: "stickerLoads (evs @ [?e]) = stickerLoads evs"
        by (simp add: stickerLoads_append)
      show ?thesis
        unfolding PhotoLoad f l using a snoc by blast
    qed
  next
    case (StickerLoad i rnd)
    let ?e = "StickerLoad i rnd"
    show ?thesis
    proof (cases "stickerPending ?st i")
      case None
      then show ?thesis
        using snoc StickerLoad
        by (simp add: run_snoc photoLoads_append stickerLoads_append)
    next
      case (Some src)
      have src: "stickerSrc c = Some src" using snoc Some by blast
      have st': "run c env (evs @ [?e]) st0
          = stickerOnload src i rnd (?st\<lparr>stickerPending := (stickerPending ?st)(i := None)\<rparr>)"
        using Some by (simp add: run_snoc)
      have a: "\<forall>j src. stickerPending (run c env (evs @ [?e]) st0) j = Some src \<longrightarrow>
            stickerSrc c = Some src \<and> j \<in> set (photoLoads (evs @ [?e]))"
        using snoc
        by (auto simp: st' stickerOnload_fields photoLoads_append split: if_splits)
      have f: "filter isStickerDraw (calls (run c env (evs @ [?e]) st0))
          = filter isStickerDraw (calls ?st)
            @ replicate (nat (stickerCount rnd))
                (DrawImage (StickerImg src) (- stickerSize / 2) (- stickerSize / 2)
                   stickerSize stickerSize)"
        by (simp add: st' stickerOnload_calls filter_sticker_stickers)
      have b: "\<forall>x \<in> set (filter isStickerDraw (calls (run c env (evs @ [?e]) st0))).
            \<exists>src. stickerSrc c = Some src
              \<and> x = DrawImage (StickerImg src) (- stickerSize / 2) (- stickerSize / 2)
                      stickerSize stickerSize"
        unfolding f using snoc src by auto
      have l: "stickerLoads (evs @ [?e]) \<noteq> []"
        by (simp add: stickerLoads_append)
      show ?thesis
        unfolding StickerLoad using a b l by blast
    qed
  qed
qed



lemma calls_grow: "\<exists>ys. calls (run c env evs st) = calls st @ ys"
proof (induction evs rule: rev_induct)
  case Nil
  show ?case by (simp add: run_Nil)
next
  case (snoc e evs)
  then obtain ys where ys: "calls (run c env evs st) = calls st @ ys" by blast
  show ?case
    by (cases e)
      (simp_all add: run_snoc photoOnload_calls stickerOnload_calls ys split: option.splits)
qed

text \<open>The image a pending slot holds is the snapshot of that slot.\<close>

lemma pending_photo:
  assumes s: "downloadPhotoStrip c env styleArg colorArg = Some st0"
    and p: "photoPending (run c env evs st0) i = Some img"
  shows "img = capturedPhotos c ! i"
  using p
proof (induction evs arbitrary: img rule: rev_induct)
  case Nil
  then have "map_of (List.enumerate 0 (capturedPhotos c)) i = Some img"
    using started(7)[OF s] by (simp add: run_Nil)
  then have "(i, img) \<in> set (List.enumerate 0 (capturedPhotos c))"
    by (rule map_of_SomeD)
  then show ?case by (simp add: in_set_enumerate_eq)
next
  case (snoc e evs)
  show ?case
  proof (cases e)
    case (PhotoLoad j now)
    then show ?thesis
      using snoc
      by (simp add: run_snoc photoOnload_fields split: option.splits if_splits)
  next
    case (StickerLoad j rnd)
    then show ?thesis
      using snoc
      by (simp add: run_snoc stickerOnload_fields split: option.splits)
  qed
qed

text \<open>What has been drawn, and what a download holds.\<close>

lemma artifact:
  assumes s: "downloadPhotoStrip c env styleArg colorArg = Some st0"
  shows "(\<forall>i < length (capturedPhotos c). i \<in> set (photoLoads evs) \<longrightarrow>
            DrawImage (Photo (capturedPhotos c ! i)) 20 (slotY i) photoWidth photoHeight
              \<in> set (calls (run c env evs st0)))
       \<and> (\<forall>d \<in> set (downloads (run c env evs st0)).
            (\<forall>i < length (capturedPhotos c).
               DrawImage (Photo (capturedPhotos c ! i)) 20 (slotY i) photoWidth photoHeight
                 \<in> set (href d))
            \<and> FillText (captureTime c) (stripWidth / 2) (dateY (real (length (capturedPhotos c))))
                 \<in> set (href d))"
proof (induction evs rule: rev_induct)
  case Nil
  show ?case by (simp add: run_Nil started[OF s])
next
  case (snoc e evs)
  let ?n = "length (capturedPhotos c)"
  let ?st = "run c env evs st0"
  let ?draw = "\<lambda>i. DrawImage (Photo (capturedPhotos c ! i)) 20 (slotY i) photoWidth photoHeight"
  show ?case
  proof (cases e)
    case (StickerLoad i rnd)
    then show ?thesis
      using snoc
      by (auto simp: run_snoc photoLoads_append stickerOnload_calls stickerOnload_fields
          split: option.splits)
  next
    case (PhotoLoad i now)
    let ?e = "PhotoLoad i now"
    show ?thesis
    proof (cases "photoPending ?st i")
      case None
      then have "i \<notin> {..<?n} - set (photoLoads evs)" using barrier[OF s, of evs] by blast
      then have "\<forall>j < ?n. j \<in> set (photoLoads (evs @ [?e])) \<longrightarrow> j \<in> set (photoLoads evs)"
        by (auto simp: photoLoads_append)
      then show ?thesis
        unfolding PhotoLoad using snoc None by (simp add: run_snoc)
    next
      case (Some img)
      note ps = pending_step[OF s Some]
      have img: "img = capturedPhotos c ! i" using pending_photo[OF s Some] .
      have st': "run c env (evs @ [?e]) st0
          = photoOnload c env i img now (?st\<lparr>photoPending := (photoPending ?st)(i := None)\<rparr>)"
        using Some by (simp add: run_snoc)
      have here: "?draw i \<in> set (photoCalls c env i img)"
        by (simp add: photoCalls_def img)
      have a: "\<forall>j < ?n. j \<in> set (photoLoads (evs @ [?e])) \<longrightarrow>
          ?draw j \<in> set (calls (run c env (evs @ [?e]) st0))"
        using snoc here by (auto simp: st' photoOnload_calls photoLoads_append)
      have b: "\<forall>d \<in> set (downloads (run c env (evs @ [?e]) st0)).
            (\<forall>j < ?n. ?draw j \<in> set (href d))
            \<and> FillText (captureTime c) (stripWidth / 2) (dateY (real ?n)) \<in> set (href d)"
      proof (cases "loadedCount ?st + 1 = ?n")
        case False
        then show ?thesis
          using ps(1) by (simp add: st' photoOnload_downloads)
      next
        case True
        then have all: "{..<?n} \<subseteq> insert i (set (photoLoads evs))" using ps(4) by simp
        have "\<forall>j < ?n. ?draw j \<in> set (calls ?st @ photoCalls c env i img @ labelCalls c)"
        proof (intro allI impI)
          fix j assume j: "j < ?n"
          then have "j = i \<or> j \<in> set (photoLoads evs)" using all by auto
          then show "?draw j \<in> set (calls ?st @ photoCalls c env i img @ labelCalls c)"
            using snoc here j by auto
        qed
        moreover have "FillText (captureTime c) (stripWidth / 2) (dateY (real ?n))
            \<in> set (calls ?st @ photoCalls c env i img @ labelCalls c)"
          by (simp add: labelCalls_def)
        ultimately show ?thesis
          using True ps(1) by (simp add: st' photoOnload_downloads)
      qed
      show ?thesis
        unfolding PhotoLoad using a b by blast
    qed
  qed
qed

lemma stripHeight_formula: "stripHeight n = 60 + n * 300 + (n - 1) * 10 + 40"
  by (simp add: stripHeight_def previewPaddingTop_def photoHeight_def previewPhotoGap_def
      previewDatePadding_def)

text \<open>
  Claim C1. With \<open>n \<ge> 1\<close> snapshots (and a 2D context), \<^verbatim>\<open>downloadPhotoStrip\<close> creates
  a canvas whose height is header padding + \<open>n\<close> photo heights + \<open>n - 1\<close> gaps + bottom
  padding, that is \<open>60 + 300 n + 10 (n - 1) + 40\<close>, where the bottom padding is the 16
  below the last photo plus the 24 of the date text; its width is the photo width plus 40,
  that is 440. Both depend on nothing but \<open>n\<close>, and no later event changes them.
\<close>
theorem strip_canvas_size:
  assumes "n = length (capturedPhotos c)" and "1 \<le> n" and "context2dAvailable env"
  shows "\<exists>st0. downloadPhotoStrip c env styleArg colorArg = Some st0
     \<and> canvasHeight st0
         = previewPaddingTop + real n * photoHeight + (real n - 1) * previewPhotoGap
           + (previewDatePadding + 24)
     \<and> canvasHeight st0 = 60 + real n * 300 + (real n - 1) * 10 + 40
     \<and> canvasWidth st0 = photoWidth + 40
     \<and> canvasWidth st0 = 440
     \<and> (\<forall>evs. canvasHeight (run c env evs st0) = canvasHeight st0
              \<and> canvasWidth (run c env evs st0) = canvasWidth st0)"
proof -
  have "capturedPhotos c \<noteq> []" using assms(1,2) by auto
  with assms(3) obtain st0 where s: "downloadPhotoStrip c env styleArg colorArg = Some st0"
    by (simp add: downloadPhotoStrip_def Let_def)
  have h: "canvasHeight st0 = stripHeight (real n)" and w: "canvasWidth st0 = stripWidth"
    using started(3,4)[OF s] assms(1) by simp_all
  have "canvasHeight st0
         = previewPaddingTop + real n * photoHeight + (real n - 1) * previewPhotoGap
           + (previewDatePadding + 24)"
    by (simp add: h stripHeight_def mult.commute)
  moreover have "canvasHeight st0 = 60 + real n * 300 + (real n - 1) * 10 + 40"
    by (simp add: h stripHeight_formula)
  moreover have "canvasWidth st0 = photoWidth + 40" "canvasWidth st0 = 440"
    by (simp_all add: w stripWidth_def photoWidth_def)
  ultimately show ?thesis
    using s dims_run by blast
qed

theorem strip_canvas_size_witness:
  "\<exists>st0. downloadPhotoStrip
       (initial\<lparr>capturedPhotos := [JpegDataURL ''none'' 10, JpegDataURL ''none'' 12]\<rparr>)
       \<lparr>context2dAvailable = True, documentElementStyle = (\<lambda>p. ''''), bodyStyle = (\<lambda>p. '''')\<rparr>
       None None = Some st0
     \<and> canvasHeight st0 = 710 \<and> canvasWidth st0 = 440"
  using strip_canvas_size[of 2
      "initial\<lparr>capturedPhotos := [JpegDataURL ''none'' 10, JpegDataURL ''none'' 12]\<rparr>"
      "\<lparr>context2dAvailable = True, documentElementStyle = (\<lambda>p. ''''), bodyStyle = (\<lambda>p. '''')\<rparr>"
      None None]
  by (auto simp: initial_def)

text \<open>
  Claim C2. After any sequence of load events, \<^verbatim>\<open>loadedCount\<close> is the number of
  snapshot images that have loaded; a download has been triggered exactly when every
  snapshot image has loaded, and at most one; the time stamp label has been drawn exactly
  then too (the only other text is the header). Sticker loads play no part in any of
  this: when every snapshot has loaded and no sticker image has, the download has fired
  and no sticker is on the canvas. The image handed to a download holds the draw of every
  snapshot, each in its slot, and the time stamp label.
\<close>
theorem download_waits_for_snapshots_only:
  assumes "downloadPhotoStrip c env styleArg colorArg = Some st0"
  shows
    "(let n = length (capturedPhotos c); st = run c env evs st0
      in loadedCount st = card ({..<n} \<inter> set (photoLoads evs))
       \<and> (downloads st \<noteq> [] \<longleftrightarrow> {..<n} \<subseteq> set (photoLoads evs))
       \<and> length (downloads st) \<le> 1
       \<and> filter isFillText (calls st)
           = FillText ''Captured by FotoJB'' (stripWidth / 2) 40
             # (if {..<n} \<subseteq> set (photoLoads evs)
                then [FillText (captureTime c) (stripWidth / 2) (dateY (real n))] else [])
       \<and> ({..<n} \<subseteq> set (photoLoads evs) \<and> stickerLoads evs = [] \<longrightarrow>
             downloads st \<noteq> [] \<and> filter isStickerDraw (calls st) = [])
       \<and> (\<forall>d \<in> set (downloads st).
             (\<forall>i < n. DrawImage (Photo (capturedPhotos c ! i)) 20 (slotY i) photoWidth photoHeight
                  \<in> set (href d))
             \<and> FillText (captureTime c) (stripWidth / 2) (dateY (real n)) \<in> set (href d)))"
proof -
  have "\<forall>d \<in> set (downloads (run c env evs st0)).
      (\<forall>i < length (capturedPhotos c).
         DrawImage (Photo (capturedPhotos c ! i)) 20 (slotY i) photoWidth photoHeight
           \<in> set (href d))
      \<and> FillText (captureTime c) (stripWidth / 2) (dateY (real (length (capturedPhotos c))))
           \<in> set (href d)"
    using artifact[OF assms, of evs] by blast
  then show ?thesis
    unfolding Let_def
    using barrier[OF assms, of evs] texts[OF assms, of evs] sticker_inv[OF assms, of evs]
    by simp
qed

text \<open>
  Claim C10. With no snapshots \<^verbatim>\<open>downloadPhotoStrip\<close> returns at its guard: no canvas,
  no image, no handler. Otherwise, as long as the image of some slot \<open>i\<close> has not loaded,
  whatever else has happened, no download has been triggered, the counter is below the
  number of snapshots and the only text on the canvas is the header: the label has not
  been drawn. Nothing reports the missing load: the source registers no error handler,
  and the model has no event for it.
\<close>
theorem no_download_without_every_snapshot:
  "(capturedPhotos c = [] \<longrightarrow> downloadPhotoStrip c env styleArg colorArg = None)
   \<and> (downloadPhotoStrip c env styleArg colorArg = Some st0
        \<and> i < length (capturedPhotos c) \<and> i \<notin> set (photoLoads evs) \<longrightarrow>
          downloads (run c env evs st0) = []
        \<and> loadedCount (run c env evs st0) < length (capturedPhotos c)
        \<and> filter isFillText (calls (run c env evs st0))
            = [FillText ''Captured by FotoJB'' (stripWidth / 2) 40])"
proof -
  have a: "capturedPhotos c = [] \<longrightarrow> downloadPhotoStrip c env styleArg colorArg = None"
    by (simp add: downloadPhotoStrip_def)
  have b: "downloads (run c env evs st0) = []
        \<and> loadedCount (run c env evs st0) < length (capturedPhotos c)
        \<and> filter isFillText (calls (run c env evs st0))
            = [FillText ''Captured by FotoJB'' (stripWidth / 2) 40]"
    if s: "downloadPhotoStrip c env styleArg colorArg = Some st0"
      and i: "i < length (capturedPhotos c)" "i \<notin> set (photoLoads evs)"
  proof -
    let ?n = "length (capturedPhotos c)"
    have notall: "\<not> {..<?n} \<subseteq> set (photoLoads evs)" using i by blast
    have "{..<?n} \<inter> set (photoLoads evs) \<subseteq> {..<?n} - {i}" using i by blast
    then have "card ({..<?n} \<inter> set (photoLoads evs)) \<le> card ({..<?n} - {i})"
      by (intro card_mono) auto
    also have "\<dots> < ?n" using i by simp
    finally have "loadedCount (run c env evs st0) < ?n"
      using barrier[OF s, of evs] by simp
    then show ?thesis
      using barrier[OF s, of evs] texts[OF s, of evs] notall by simp
  qed
  from a b show ?thesis by blast
qed

text \<open>
  Claim C6. With the style \<^verbatim>\<open>strip-custom\<close> and a color passed in, the first two calls
  on the context are the assignment of that color to \<^verbatim>\<open>fillStyle\<close> and a \<^verbatim>\<open>fillRect\<close>
  of the whole canvas, from \<open>(0, 0)\<close> with the canvas's width and height; only the header
  follows before the images load, and no later event changes these two calls. The
  download button passes the current color, so the fill is the color currently picked.
  (The canvas takes the assigned value as the fill color when it is a valid CSS color.)
\<close>
theorem custom_color_fills_canvas:
  "(capturedPhotos c \<noteq> [] \<and> context2dAvailable env \<longrightarrow>
      (\<exists>st0. downloadPhotoStrip c env (Some ''strip-custom'') (Some color) = Some st0
        \<and> calls st0 = [SetFillStyle color, FillRect 0 0 (canvasWidth st0) (canvasHeight st0)]
                       @ topMessage
        \<and> (\<forall>evs. take 2 (calls (run c env evs st0))
              = [SetFillStyle color, FillRect 0 0 (canvasWidth st0) (canvasHeight st0)])))
   \<and> (capturedPhotos (dlClosure pg) \<noteq> [] \<and> context2dAvailable env
        \<and> selectedStripStyle (cur pg) = ''strip-custom'' \<longrightarrow>
      (\<exists>st0. clickDownload pg env = Some st0
        \<and> take 2 (calls st0)
            = [SetFillStyle (customColor (cur pg)),
               FillRect 0 0 (canvasWidth st0) (canvasHeight st0)]))"
proof -
  have a: "\<exists>st0. downloadPhotoStrip c env (Some ''strip-custom'') (Some color) = Some st0
        \<and> calls st0 = [SetFillStyle color, FillRect 0 0 (canvasWidth st0) (canvasHeight st0)]
                       @ topMessage
        \<and> (\<forall>evs. take 2 (calls (run c env evs st0))
              = [SetFillStyle color, FillRect 0 0 (canvasWidth st0) (canvasHeight st0)])"
    if "capturedPhotos c \<noteq> []" "context2dAvailable env" for c color
  proof -
    from that obtain st0 where
      s: "downloadPhotoStrip c env (Some ''strip-custom'') (Some color) = Some st0"
      by (auto simp: downloadPhotoStrip_def Let_def)
    have cl: "calls st0 = [SetFillStyle color, FillRect 0 0 (canvasWidth st0) (canvasHeight st0)]
                       @ topMessage"
      using started(3,4,9)[OF s] by (simp add: background_def)
    have "take 2 (calls (run c env evs st0))
              = [SetFillStyle color, FillRect 0 0 (canvasWidth st0) (canvasHeight st0)]" for evs
      using calls_grow[of c env evs st0] cl by auto
    with s cl show ?thesis by blast
  qed
  have b: "\<exists>st0. clickDownload pg env = Some st0
        \<and> take 2 (calls st0)
            = [SetFillStyle (customColor (cur pg)),
               FillRect 0 0 (canvasWidth st0) (canvasHeight st0)]"
    if "capturedPhotos (dlClosure pg) \<noteq> []" "context2dAvailable env"
      "selectedStripStyle (cur pg) = ''strip-custom''"
    using a[OF that(1,2), of "customColor (cur pg)"] that(3)
    by (auto simp: clickDownload_def)
  from a b show ?thesis by blast
qed

lemma heartStrip_started:
  "downloadPhotoStrip heartStrip sampleEnv None None
     = Some (the (downloadPhotoStrip heartStrip sampleEnv None None))"
  by (simp add: downloadPhotoStrip_def heartStrip_def sampleEnv_def initial_def Let_def)

lemma lessThan_2: "{..<2::nat} = {0, 1}"
  by auto

theorem download_waits_for_snapshots_only_witness:
  "loadedCount (run heartStrip sampleEnv [PhotoLoad 1 5, PhotoLoad 0 6]
       (the (downloadPhotoStrip heartStrip sampleEnv None None))) = 2
   \<and> downloads (run heartStrip sampleEnv [PhotoLoad 1 5, PhotoLoad 0 6]
       (the (downloadPhotoStrip heartStrip sampleEnv None None))) \<noteq> []
   \<and> filter isStickerDraw (calls (run heartStrip sampleEnv [PhotoLoad 1 5, PhotoLoad 0 6]
       (the (downloadPhotoStrip heartStrip sampleEnv None None)))) = []
   \<and> downloads (run heartStrip sampleEnv [PhotoLoad 1 5]
       (the (downloadPhotoStrip heartStrip sampleEnv None None))) = []"
proof -
  have n: "length (capturedPhotos heartStrip) = 2"
    by (simp add: heartStrip_def)
  have all: "{..<2::nat} \<subseteq> set (photoLoads [PhotoLoad 1 5, PhotoLoad 0 6])"
    by auto
  have crd: "card ({..<2::nat} \<inter> set (photoLoads [PhotoLoad 1 5, PhotoLoad 0 6])) = 2"
    by (simp add: lessThan_2)
  have one: "\<not> {..<2::nat} \<subseteq> set (photoLoads [PhotoLoad 1 5])"
    by (simp add: lessThan_2)
  have nos: "stickerLoads [PhotoLoad 1 5, PhotoLoad 0 6] = []"
    by simp
  show ?thesis
    using
      download_waits_for_snapshots_only[OF heartStrip_started,
        of "[PhotoLoad 1 5, PhotoLoad 0 6]", unfolded Let_def n]
      download_waits_for_snapshots_only[OF heartStrip_started,
        of "[PhotoLoad 1 5]", unfolded Let_def n]
      all crd one nos
    by metis
qed

theorem no_download_without_every_snapshot_witness:
  "downloadPhotoStrip initial sampleEnv None None = None
   \<and> downloads (run heartStrip sampleEnv [PhotoLoad 0 5, StickerLoad 0 (\<lambda>k. 0)]
       (the (downloadPhotoStrip heartStrip sampleEnv None None))) = []
   \<and> loadedCount (run heartStrip sampleEnv [PhotoLoad 0 5, StickerLoad 0 (\<lambda>k. 0)]
       (the (downloadPhotoStrip heartStrip sampleEnv None None))) < 2"
proof -
  have n: "length (capturedPhotos heartStrip) = 2"
    by (simp add: heartStrip_def)
  have e: "capturedPhotos initial = []"
    by (simp add: initial_def)
  have i: "(1::nat) < 2 \<and> 1 \<notin> set (photoLoads [PhotoLoad 0 5, StickerLoad 0 (\<lambda>k. 0)])"
    by simp
  show ?thesis
    using
      no_download_without_every_snapshot[of initial sampleEnv None None
        "the (downloadPhotoStrip heartStrip sampleEnv None None)" 1 "[]"]
      no_download_without_every_snapshot[of heartStrip sampleEnv None None
        "the (downloadPhotoStrip heartStrip sampleEnv None None)" 1
        "[PhotoLoad 0 5, StickerLoad 0 (\<lambda>k. 0)]", unfolded n]
      heartStrip_started e i
    by metis
qed

theorem custom_color_fills_canvas_witness:
  "calls (the (downloadPhotoStrip heartStrip sampleEnv (Some ''strip-custom'') (Some ''#e0f7fa'')))
     = [SetFillStyle ''#e0f7fa'', FillRect 0 0 440 710] @ topMessage
   \<and> take 2 (calls (the (clickDownload
        \<lparr>cur = heartStrip\<lparr>customColor := ''#123456''\<rparr>, dlClosure = heartStrip\<rparr> sampleEnv)))
     = [SetFillStyle ''#123456'', FillRect 0 0 440 710]"
proof -
  have ne: "capturedPhotos heartStrip \<noteq> [] \<and> context2dAvailable sampleEnv"
    by (simp add: heartStrip_def sampleEnv_def)
  have st: "selectedStripStyle (cur \<lparr>cur = heartStrip\<lparr>customColor := ''#123456''\<rparr>,
      dlClosure = heartStrip\<rparr>) = ''strip-custom''"
    by (simp add: heartStrip_def initial_def stripStyles_def)
  have dims: "canvasWidth st0 = 440 \<and> canvasHeight st0 = 710"
    if "downloadPhotoStrip heartStrip sampleEnv a b = Some st0" for a b st0
    using started(3,4)[OF that]
    by (simp add: stripWidth_def photoWidth_def stripHeight_formula heartStrip_def)
  show ?thesis
    using custom_color_fills_canvas[of heartStrip sampleEnv "''#e0f7fa''"
        "\<lparr>cur = heartStrip\<lparr>customColor := ''#123456''\<rparr>, dlClosure = heartStrip\<rparr>"]
      ne st dims
    by (auto simp: clickDownload_def)
qed

subsection \<open>The filter\<close>

lemma matchVar_wellformed:
  assumes "nm \<noteq> []" and "CHR '')'' \<notin> set nm"
  shows "matchVar (''var('' @ nm @ '')'' @ rest) = Some nm"
proof -
  have t: "takeWhile (\<lambda>x. x \<noteq> CHR '')'') (nm @ CHR '')'' # rest) = nm"
    using assms(2) by (induction nm) auto
  have d: "dropWhile (\<lambda>x. x \<noteq> CHR '')'') (nm @ CHR '')'' # rest) = CHR '')'' # rest"
    using assms(2) by (induction nm) auto
  show ?thesis
    using assms(1) by (simp add: startsWith_def t d)
qed

lemma startsWith_var: "startsWith (''var('' @ s) ''var(''"
  by (simp add: startsWith_def)

lemma trim_clean:
  assumes "s \<noteq> []" and "\<not> isSpace (hd s)" and "\<not> isSpace (last s)"
  shows "trim s = s"
proof -
  have a: "dropWhile isSpace s = s"
    using assms(1,2) by (cases s) simp_all
  have "rev s \<noteq> []" and "\<not> isSpace (hd (rev s))"
    using assms(1,3) by (simp_all add: hd_rev)
  then have b: "dropWhile isSpace (rev s) = rev s"
    by (cases "rev s") simp_all
  show ?thesis by (simp add: trim_def a b)
qed

lemma resolve_direct:
  "\<not> startsWith f ''var('' \<Longrightarrow> resolveFilter env f = orElse (trim f) ''none''"
  by (simp add: resolveFilter_def)

lemma resolve_var:
  assumes "nm \<noteq> []" and "CHR '')'' \<notin> set nm"
  shows "resolveFilter env (''var('' @ nm @ '')'' @ rest)
     = orElse (trim (orElse (documentElementStyle env (trim nm))
                       (orElse (bodyStyle env (trim nm)) ''none''))) ''none''"
  using assms matchVar_wellformed[OF assms, of rest] startsWith_var[of "nm @ '')'' @ rest"]
  by (simp add: resolveFilter_def Let_def del: matchVar.simps)

lemma trim_none: "trim ''none'' = ''none''"
  by (simp add: trim_def isSpace_def)

lemma catalog_shapes:
  "\<forall>flt \<in> set filters.
     cssFilter flt = ''none''
     \<or> (\<exists>nm. nm \<noteq> [] \<and> CHR '')'' \<notin> set nm \<and> trim nm = nm
           \<and> cssFilter flt = ''var('' @ nm @ '')'')"
proof -
  have v: "\<exists>nm. nm \<noteq> [] \<and> CHR '')'' \<notin> set nm \<and> trim nm = nm \<and> ''var('' @ s @ '')'' = ''var('' @ nm @ '')''"
    if "s \<noteq> []" "CHR '')'' \<notin> set s" "trim s = s" for s
    using that by blast
  have bw: "trim ''--filter-bw'' = ''--filter-bw''" by (simp add: trim_def isSpace_def)
  have sepia: "trim ''--filter-sepia'' = ''--filter-sepia''" by (simp add: trim_def isSpace_def)
  have vintage: "trim ''--filter-vintage'' = ''--filter-vintage''" by (simp add: trim_def isSpace_def)
  have soft: "trim ''--filter-soft'' = ''--filter-soft''" by (simp add: trim_def isSpace_def)
  have noir: "trim ''--filter-noir'' = ''--filter-noir''" by (simp add: trim_def isSpace_def)
  have vivid: "trim ''--filter-vivid'' = ''--filter-vivid''" by (simp add: trim_def isSpace_def)
  show ?thesis
    unfolding filters_def
    using v[of "''--filter-bw''"] v[of "''--filter-sepia''"] v[of "''--filter-vintage''"]
      v[of "''--filter-soft''"] v[of "''--filter-noir''"] v[of "''--filter-vivid''"]
      bw sepia vintage soft noir vivid
    by simp
qed

lemma fire_photo_calls:
  assumes "photoPending st i = Some img"
  shows "calls (fire c env (PhotoLoad i now) st)
     = calls st
       @ [Save, SetFilter (resolveFilter env (cssFilter (activeFilter c))),
          DrawImage (Photo img) 20 (slotY i) photoWidth photoHeight, Restore]
       @ (if loadedCount st + 1 = length (capturedPhotos c) then labelCalls c else [])"
  using assms by (simp add: photoOnload_calls photoOnload_fields photoCalls_def)


subsection \<open>Sample sessions\<close>

lemma captured_eval:
  "clickStartCapture noInput cameraReady ''10:00'' threeShots =
     \<lparr>cur = initial\<lparr>stream := Some (MediaStream 0), captureTime := ''10:00'',
                capturedPhotos := [JpegDataURL ''none'' 10, JpegDataURL ''none'' 11,
                                   JpegDataURL ''none'' 12],
                countdownValue := 1\<rparr>,
      dlClosure = initial\<lparr>stream := Some (MediaStream 0), captureTime := ''10:00'',
                capturedPhotos := [JpegDataURL ''none'' 10, JpegDataURL ''none'' 11,
                                   JpegDataURL ''none'' 12],
                countdownValue := 1\<rparr>\<rparr>"
  by (simp add: cameraReady_eval clickStartCapture_def startPhotoSequence_def initial_def
      noInput_def inputs_def
      photoLoop_unfold countdown_3 commit_def apply_all_def capturePhoto_def threeShots_def
      filters_def Let_def)

lemma changed_eval:
  "filterChangedAfterCapture =
     \<lparr>cur = initial\<lparr>stream := Some (MediaStream 0), captureTime := ''10:00'',
                capturedPhotos := [JpegDataURL ''none'' 10, JpegDataURL ''none'' 11,
                                   JpegDataURL ''none'' 12],
                countdownValue := 1, activeFilter := filters ! 1\<rparr>,
      dlClosure = initial\<lparr>stream := Some (MediaStream 0), captureTime := ''10:00'',
                capturedPhotos := [JpegDataURL ''none'' 10, JpegDataURL ''none'' 11,
                                   JpegDataURL ''none'' 12],
                countdownValue := 1\<rparr>\<rparr>"
  by (simp add: filterChangedAfterCapture_def captured_eval clickFilter_def commit_def
      apply_all_def initial_def)

lemma resolve_none: "resolveFilter env ''none'' = ''none''"
  by (simp add: resolveFilter_def startsWith_def trim_none orElse_def)

lemma resolve_bw: "resolveFilter sampleEnv ''var(--filter-bw)'' = ''grayscale(100%)''"
  using resolve_var[of "''--filter-bw''" sampleEnv "[]"]
  by (simp add: sampleEnv_def trim_def isSpace_def orElse_def)

lemma setFilters_append: "setFilters (xs @ ys) = setFilters xs @ setFilters ys"
  by (induction xs rule: setFilters.induct) auto

lemma setFilters_hearts: "setFilters (concat (map drawHeart ks)) = []"
  by (induction ks) (simp_all add: setFilters_append drawHeart_def)

lemma setFilters_background: "setFilters (background s col w h) = []"
  by (simp add: background_def drawButterfly_def setFilters_hearts)

lemma cleared_eval:
  "filterClearedAfterCapture =
     \<lparr>cur = initial\<lparr>stream := Some (MediaStream 0), captureTime := ''10:00'',
                capturedPhotos := [JpegDataURL ''var(--filter-bw)'' 10,
                                   JpegDataURL ''var(--filter-bw)'' 11,
                                   JpegDataURL ''var(--filter-bw)'' 12],
                countdownValue := 1\<rparr>,
      dlClosure = initial\<lparr>stream := Some (MediaStream 0), captureTime := ''10:00'',
                capturedPhotos := [JpegDataURL ''var(--filter-bw)'' 10,
                                   JpegDataURL ''var(--filter-bw)'' 11,
                                   JpegDataURL ''var(--filter-bw)'' 12],
                countdownValue := 1, activeFilter := filters ! 1\<rparr>\<rparr>"
  by (simp add: filterClearedAfterCapture_def cameraReady_eval clickFilter_def
      clickStartCapture_def startPhotoSequence_def initial_def noInput_def inputs_def
      photoLoop_unfold countdown_3 commit_def apply_all_def capturePhoto_def threeShots_def
      filters_def Let_def)

text \<open>
  Claim C8. The download button runs the memoized callback, and the handler that draws the
  snapshot of a slot assigns to \<^verbatim>\<open>ctx.filter\<close>, between \<^verbatim>\<open>save\<close> and the \<^verbatim>\<open>drawImage\<close> of
  that snapshot, the resolved value of the filter that callback holds,
  \<open>activeFilter (dlClosure pg)\<close>. When this is the filter of the current state,
  \<open>activeFilter (cur pg)\<close>, the handler assigns the resolved value of the filter active at
  composite time; after a filter click that no change of the snapshots or of the strip
  style has followed, it is not. Resolution: a value that does not start with \<^verbatim>\<open>var(\<close> is
  used as it is (trimmed, and \<^verbatim>\<open>none\<close> if nothing is left; unchanged when it has no white
  space at its ends); a reference \<^verbatim>\<open>var(NAME)\<close> becomes the computed value of \<^verbatim>\<open>NAME\<close> on
  the document element, else on the body, else \<^verbatim>\<open>none\<close>, again trimmed with \<^verbatim>\<open>none\<close> for
  an empty result; so when neither style yields anything but white space the filter is
  \<^verbatim>\<open>none\<close>. Every filter of the catalog is \<^verbatim>\<open>none\<close> or such a reference.
\<close>
theorem filter_resolved_for_canvas:
  "(clickDownload pg env = Some st0
      \<and> photoPending (run (dlClosure pg) env evs st0) i = Some img \<longrightarrow>
        img = capturedPhotos (dlClosure pg) ! i
      \<and> (\<exists>rest. calls (fire (dlClosure pg) env (PhotoLoad i now) (run (dlClosure pg) env evs st0))
           = calls (run (dlClosure pg) env evs st0)
             @ [Save, SetFilter (resolveFilter env (cssFilter (activeFilter (dlClosure pg)))),
                DrawImage (Photo img) 20 (slotY i) photoWidth photoHeight, Restore]
             @ rest)
      \<and> (activeFilter (dlClosure pg) = activeFilter (cur pg) \<longrightarrow>
           (\<exists>rest. calls (fire (dlClosure pg) env (PhotoLoad i now)
                           (run (dlClosure pg) env evs st0))
              = calls (run (dlClosure pg) env evs st0)
                @ [Save, SetFilter (resolveFilter env (cssFilter (activeFilter (cur pg)))),
                   DrawImage (Photo img) 20 (slotY i) photoWidth photoHeight, Restore]
                @ rest)))
   \<and> (\<not> startsWith f ''var('' \<longrightarrow> resolveFilter env f = orElse (trim f) ''none'')
   \<and> (\<not> startsWith f ''var('' \<and> f \<noteq> [] \<and> \<not> isSpace (hd f) \<and> \<not> isSpace (last f) \<longrightarrow>
        resolveFilter env f = f)
   \<and> (nm \<noteq> [] \<and> CHR '')'' \<notin> set nm \<longrightarrow>
        resolveFilter env (''var('' @ nm @ '')'')
          = orElse (trim (orElse (documentElementStyle env (trim nm))
                            (orElse (bodyStyle env (trim nm)) ''none''))) ''none'')
   \<and> (nm \<noteq> [] \<and> CHR '')'' \<notin> set nm
        \<and> trim (documentElementStyle env (trim nm)) = []
        \<and> trim (bodyStyle env (trim nm)) = [] \<longrightarrow>
        resolveFilter env (''var('' @ nm @ '')'') = ''none'')
   \<and> (\<forall>flt \<in> set filters.
        cssFilter flt = ''none''
        \<or> (\<exists>v. v \<noteq> [] \<and> CHR '')'' \<notin> set v \<and> trim v = v
              \<and> cssFilter flt = ''var('' @ v @ '')''))"
proof -
  let ?c = "dlClosure pg"
  let ?st = "run ?c env evs st0"
  have a: "img = capturedPhotos ?c ! i
      \<and> (\<exists>rest. calls (fire ?c env (PhotoLoad i now) ?st)
           = calls ?st
             @ [Save, SetFilter (resolveFilter env (cssFilter (activeFilter ?c))),
                DrawImage (Photo img) 20 (slotY i) photoWidth photoHeight, Restore]
             @ rest)
      \<and> (activeFilter ?c = activeFilter (cur pg) \<longrightarrow>
           (\<exists>rest. calls (fire ?c env (PhotoLoad i now) ?st)
              = calls ?st
                @ [Save, SetFilter (resolveFilter env (cssFilter (activeFilter (cur pg)))),
                   DrawImage (Photo img) 20 (slotY i) photoWidth photoHeight, Restore]
                @ rest))"
    if d: "clickDownload pg env = Some st0" and p: "photoPending ?st i = Some img"
  proof -
    have s: "downloadPhotoStrip ?c env (Some (selectedStripStyle (cur pg)))
        (Some (customColor (cur pg))) = Some st0"
      using d by (simp add: clickDownload_def)
    have img: "img = capturedPhotos ?c ! i"
      using pending_photo[OF s p] .
    have cl: "\<exists>rest. calls (fire ?c env (PhotoLoad i now) ?st)
           = calls ?st
             @ [Save, SetFilter (resolveFilter env (cssFilter (activeFilter ?c))),
                DrawImage (Photo img) 20 (slotY i) photoWidth photoHeight, Restore]
             @ rest"
      using fire_photo_calls[OF p, of ?c env now] by blast
    from img cl show ?thesis by metis
  qed
  have b: "\<not> startsWith f ''var('' \<longrightarrow> resolveFilter env f = orElse (trim f) ''none''"
    by (simp add: resolve_direct)
  have c: "\<not> startsWith f ''var('' \<and> f \<noteq> [] \<and> \<not> isSpace (hd f) \<and> \<not> isSpace (last f) \<longrightarrow>
        resolveFilter env f = f"
    by (simp add: resolve_direct trim_clean orElse_def)
  have d: "nm \<noteq> [] \<and> CHR '')'' \<notin> set nm \<longrightarrow>
        resolveFilter env (''var('' @ nm @ '')'')
          = orElse (trim (orElse (documentElementStyle env (trim nm))
                            (orElse (bodyStyle env (trim nm)) ''none''))) ''none''"
    using resolve_var[of nm env "[]"] by simp
  have e: "nm \<noteq> [] \<and> CHR '')'' \<notin> set nm
        \<and> trim (documentElementStyle env (trim nm)) = []
        \<and> trim (bodyStyle env (trim nm)) = [] \<longrightarrow>
        resolveFilter env (''var('' @ nm @ '')'') = ''none''"
    using d trim_none by (auto simp: orElse_def)
  from a b c d e catalog_shapes show ?thesis by blast
qed

text \<open>
  A session in which the two filters differ: \<^verbatim>\<open>B&W\<close> is selected, three shots are taken,
  \<^verbatim>\<open>No Filter\<close> is selected, and the strip is downloaded. The filter active at composite
  time resolves to \<^verbatim>\<open>none\<close>; the handler of slot 0 assigns \<^verbatim>\<open>grayscale(100%)\<close>, the
  resolved value of the filter the callback holds. A reference the styles do not define,
  here \<^verbatim>\<open>var(--filter-sepia)\<close>, resolves to \<^verbatim>\<open>none\<close>.
\<close>
theorem filter_resolved_for_canvas_witness:
  "name (activeFilter (cur filterClearedAfterCapture)) = ''No Filter''
   \<and> resolveFilter sampleEnv (cssFilter (activeFilter (cur filterClearedAfterCapture))) = ''none''
   \<and> (\<exists>rest. calls (fire (dlClosure filterClearedAfterCapture) sampleEnv (PhotoLoad 0 1)
                 (the (clickDownload filterClearedAfterCapture sampleEnv)))
        = calls (the (clickDownload filterClearedAfterCapture sampleEnv))
          @ [Save, SetFilter ''grayscale(100%)'',
             DrawImage (Photo (JpegDataURL ''var(--filter-bw)'' 10)) 20 60 400 300, Restore]
          @ rest)
   \<and> resolveFilter sampleEnv ''var(--filter-sepia)'' = ''none''"
proof -
  let ?pg = "filterClearedAfterCapture"
  let ?st0 = "the (clickDownload ?pg sampleEnv)"
  let ?img = "JpegDataURL ''var(--filter-bw)'' 10"
  have s: "clickDownload ?pg sampleEnv = Some ?st0"
    by (simp add: clickDownload_def downloadPhotoStrip_def cleared_eval sampleEnv_def Let_def)
  then have s': "downloadPhotoStrip (dlClosure ?pg) sampleEnv
        (Some (selectedStripStyle (cur ?pg))) (Some (customColor (cur ?pg))) = Some ?st0"
    by (simp add: clickDownload_def)
  have p: "photoPending (run (dlClosure ?pg) sampleEnv [] ?st0) 0 = Some ?img"
    using started(7)[OF s'] by (simp add: run_Nil cleared_eval enumerate_eq_zip upt_rec[of 0])
  have r1: "name (activeFilter (cur ?pg)) = ''No Filter''"
    by (simp add: cleared_eval initial_def filters_def)
  have r2: "resolveFilter sampleEnv (cssFilter (activeFilter (cur ?pg))) = ''none''"
    using resolve_none by (simp add: cleared_eval initial_def filters_def)
  have af: "resolveFilter sampleEnv (cssFilter (activeFilter (dlClosure ?pg))) = ''grayscale(100%)''"
    using resolve_bw by (simp add: cleared_eval filters_def)
  have y: "slotY 0 = 60" "photoWidth = 400" "photoHeight = 300"
    by (simp_all add: slotY_def previewPaddingTop_def photoHeight_def previewPhotoGap_def
        photoWidth_def)
  have h: "clickDownload ?pg sampleEnv = Some ?st0
      \<and> photoPending (run (dlClosure ?pg) sampleEnv [] ?st0) 0 = Some ?img"
    using s p by blast
  have "\<exists>rest. calls (fire (dlClosure ?pg) sampleEnv (PhotoLoad 0 1)
                        (run (dlClosure ?pg) sampleEnv [] ?st0))
        = calls (run (dlClosure ?pg) sampleEnv [] ?st0)
          @ [Save, SetFilter (resolveFilter sampleEnv (cssFilter (activeFilter (dlClosure ?pg)))),
             DrawImage (Photo ?img) 20 (slotY 0) photoWidth photoHeight, Restore]
          @ rest"
    using filter_resolved_for_canvas[of ?pg sampleEnv ?st0 "[]" 0 ?img 1 "''none''"
        "''--filter-sepia''"] h
    by blast
  then have r3: "\<exists>rest. calls (fire (dlClosure ?pg) sampleEnv (PhotoLoad 0 1) ?st0)
        = calls ?st0
          @ [Save, SetFilter ''grayscale(100%)'', DrawImage (Photo ?img) 20 60 400 300, Restore]
          @ rest"
    unfolding run_Nil af y .
  have sepia: "''--filter-sepia'' \<noteq> [] \<and> CHR '')'' \<notin> set ''--filter-sepia''
      \<and> trim (documentElementStyle sampleEnv (trim ''--filter-sepia'')) = []
      \<and> trim (bodyStyle sampleEnv (trim ''--filter-sepia'')) = []"
    by (simp add: sampleEnv_def trim_def isSpace_def)
  have "resolveFilter sampleEnv (''var('' @ ''--filter-sepia'' @ '')'') = ''none''"
    using filter_resolved_for_canvas[of ?pg sampleEnv ?st0 "[]" 0 ?img 1 "''none''"
        "''--filter-sepia''"] sepia
    by blast
  then have r4: "resolveFilter sampleEnv ''var(--filter-sepia)'' = ''none''"
    by simp
  from r1 r2 r3 r4 show ?thesis by blast
qed

subsection \<open>Stickers\<close>






























subsection \<open>The filter the download uses\<close>

text \<open>
  Claim C9 at a concrete session: three shots are taken with \<^verbatim>\<open>No Filter\<close> active, then
  the filter \<^verbatim>\<open>B&W\<close> is selected, then the strip is downloaded. The active filter at
  composite time is \<^verbatim>\<open>B&W\<close>, which resolves to \<^verbatim>\<open>grayscale(100%)\<close>; yet every snapshot
  is drawn with \<^verbatim>\<open>ctx.filter = 'none'\<close>, the filter of the render in which the memoized
  callback was created: \<^verbatim>\<open>activeFilter\<close> is not among its dependencies.
\<close>
theorem download_keeps_filter_of_last_capture:
  "name (activeFilter (cur filterChangedAfterCapture)) = ''B&W''
   \<and> resolveFilter sampleEnv (cssFilter (activeFilter (cur filterChangedAfterCapture)))
       = ''grayscale(100%)''
   \<and> map burned (capturedPhotos (cur filterChangedAfterCapture)) = [''none'', ''none'', ''none'']
   \<and> setFilters (calls (run (dlClosure filterChangedAfterCapture) sampleEnv
         [PhotoLoad 0 1, PhotoLoad 1 2, PhotoLoad 2 3]
         (the (clickDownload filterChangedAfterCapture sampleEnv))))
       = [''none'', ''none'', ''none'']
   \<and> length (downloads (run (dlClosure filterChangedAfterCapture) sampleEnv
         [PhotoLoad 0 1, PhotoLoad 1 2, PhotoLoad 2 3]
         (the (clickDownload filterChangedAfterCapture sampleEnv)))) = 1"
proof -
  let ?c = "dlClosure filterChangedAfterCapture"
  have a: "name (activeFilter (cur filterChangedAfterCapture)) = ''B&W''"
    by (simp add: changed_eval filters_def)
  have b: "resolveFilter sampleEnv (cssFilter (activeFilter (cur filterChangedAfterCapture)))
       = ''grayscale(100%)''"
    using resolve_bw by (simp add: changed_eval filters_def)
  have c: "map burned (capturedPhotos (cur filterChangedAfterCapture)) = [''none'', ''none'', ''none'']"
    by (simp add: changed_eval)
  have af: "cssFilter (activeFilter ?c) = ''none''"
    by (simp add: changed_eval initial_def filters_def)
  have n: "length (capturedPhotos ?c) = 3"
    by (simp add: changed_eval)
  have s: "clickDownload filterChangedAfterCapture sampleEnv
      = Some (the (clickDownload filterChangedAfterCapture sampleEnv))"
    by (simp add: clickDownload_def downloadPhotoStrip_def changed_eval sampleEnv_def Let_def)
  then have s': "downloadPhotoStrip ?c sampleEnv
        (Some (selectedStripStyle (cur filterChangedAfterCapture)))
        (Some (customColor (cur filterChangedAfterCapture)))
      = Some (the (clickDownload filterChangedAfterCapture sampleEnv))"
    by (simp add: clickDownload_def)
  let ?st0 = "the (clickDownload filterChangedAfterCapture sampleEnv)"
  let ?evs = "[PhotoLoad 0 1, PhotoLoad 1 2, PhotoLoad 2 3]"
  have p: "photoPending ?st0 0 = Some (JpegDataURL ''none'' 10)"
      "photoPending ?st0 1 = Some (JpegDataURL ''none'' 11)"
      "photoPending ?st0 2 = Some (JpegDataURL ''none'' 12)"
    using started(7)[OF s'] by (simp_all add: changed_eval enumerate_eq_zip upt_rec[of 0] upt_rec[of 1] upt_rec[of 2] upt_rec[of 3])
  have c0: "setFilters (calls ?st0) = []"
    using started(9)[OF s'] by (simp add: setFilters_append setFilters_background topMessage_def)
  have l0: "loadedCount ?st0 = 0" using started(5)[OF s'] .
  have d0: "downloads ?st0 = []" using started(6)[OF s'] .
  have d: "setFilters (calls (run ?c sampleEnv ?evs ?st0)) = [''none'', ''none'', ''none'']
      \<and> length (downloads (run ?c sampleEnv ?evs ?st0)) = 1"
    using p c0 l0 d0
    by (simp add: run_def photoOnload_calls photoOnload_fields photoOnload_downloads
        setFilters_append photoCalls_def labelCalls_def af resolve_none n)
  from a b c d show ?thesis by blast
qed


end
